theory Spec2Isabelle
  imports Complex_Main
begin

section \<open>Python values\<close>

text \<open>
  A Python \<^verbatim>\<open>str\<close> is a sequence of Unicode code points and \<^verbatim>\<open>len\<close> counts code
  points, so a string is a list of code points here. \<open>cps\<close> turns an ASCII literal into
  such a list.
\<close>

type_synonym ustr = "nat list"

definition cps :: "string \<Rightarrow> ustr" where
  "cps s = map of_char s"

text \<open>
  Truthiness of an \<^verbatim>\<open>Optional[str]\<close>, as tested by \<^verbatim>\<open>if item.image_url\<close> and
  \<^verbatim>\<open>if not item.description\<close>: \<^verbatim>\<open>None\<close> and the empty string are both false.
\<close>

fun truthy_opt_str :: "ustr option \<Rightarrow> bool" where
  "truthy_opt_str None = False"
| "truthy_opt_str (Some s) = (s \<noteq> [])"

text \<open>
  A naive \<^verbatim>\<open>datetime\<close> is its number of microseconds since the epoch, a
  \<^verbatim>\<open>timedelta\<close> a number of microseconds; both are exact integers in Python.
\<close>

type_synonym datetime = int
type_synonym timedelta = int

definition hours :: "int \<Rightarrow> timedelta" where
  "hours h = h * 3600000000"

definition days :: "int \<Rightarrow> timedelta" where
  "days d = d * 86400000000"

text \<open>
  Scores are Python floats. They are computed with exact rationals here: the model keeps
  which branch every sub-score takes and the shape of the expression that combines them,
  and leaves out the rounding error of binary floating point. \<open>round_ndigits4\<close> is
  \<^verbatim>\<open>round(x, 4)\<close>, which rounds the exact value to four decimals, a tie going to the
  even neighbour.
\<close>

definition round_half_even :: "rat \<Rightarrow> int" where
  "round_half_even x =
     (let f = \<lfloor>x\<rfloor>; d = x - of_int f
      in if d < 1 / 2 then f
         else if 1 / 2 < d then f + 1
         else if even f then f else f + 1)"

definition round_ndigits4 :: "rat \<Rightarrow> rat" where
  "round_ndigits4 x = of_int (round_half_even (x * 10000)) / 10000"

section \<open>Data model (feeds/models.py, config.py)\<close>

record FeedItem =
  item_id :: ustr
  feed_url :: ustr
  title :: ustr
  link :: ustr
  description :: "ustr option"
  published_date :: "datetime option"
  image_url :: "ustr option"
  category :: ustr
  source_name :: "ustr option"

text \<open>
  One entry of \<^verbatim>\<open>feed_config.feeds\<close>, a dict read from feeds.yaml. Only the two keys
  the selector reads are kept; \<open>None\<close> is an absent key.
\<close>

record feed_entry =
  fe_category :: "ustr option"
  fe_priority :: "rat option"

record Settings =
  top_n_items :: int
  gemini_model :: ustr

record NewsSelector =
  feed_config :: "feed_entry list"
  settings :: Settings

section \<open>Scorer (feeds/selector.py)\<close>

text \<open>
  \<^verbatim>\<open>_calculate_recency_score\<close> reads the clock with \<^verbatim>\<open>datetime.utcnow()\<close>; the
  reading is the explicit argument \<open>now\<close>.
\<close>

definition calculate_recency_score :: "datetime \<Rightarrow> FeedItem \<Rightarrow> rat" where
  "calculate_recency_score now item =
     (case published_date item of
        None \<Rightarrow> 5 / 10
      | Some d \<Rightarrow>
          (let age = now - d
           in if age < hours 1 then 1
              else if age < hours 6 then 9 / 10
              else if age < hours 12 then 8 / 10
              else if age < days 1 then 7 / 10
              else if age < days 2 then 5 / 10
              else if age < days 7 then 3 / 10
              else 1 / 10))"

fun get_source_priority :: "feed_entry list \<Rightarrow> FeedItem \<Rightarrow> rat" where
  "get_source_priority [] item = 1"
| "get_source_priority (feed # feeds) item =
     (if fe_category feed = Some (category item)
      then (case fe_priority feed of None \<Rightarrow> 1 | Some p \<Rightarrow> p)
      else get_source_priority feeds item)"

definition has_image_bonus :: "FeedItem \<Rightarrow> rat" where
  "has_image_bonus item = (if truthy_opt_str (image_url item) then 12 / 10 else 1)"

definition description_quality_score :: "FeedItem \<Rightarrow> rat" where
  "description_quality_score item =
     (case description item of
        None \<Rightarrow> 5 / 10
      | Some d \<Rightarrow>
          if d = [] then 5 / 10
          else (let len = length d
                in if len < 50 then 6 / 10
                   else if len < 100 then 8 / 10
                   else if len < 500 then 1
                   else 9 / 10))"

definition calculate_score :: "NewsSelector \<Rightarrow> datetime \<Rightarrow> FeedItem \<Rightarrow> rat" where
  "calculate_score self now item =
     (let recency = calculate_recency_score now item;
          priority = get_source_priority (feed_config self) item;
          image_bonus = has_image_bonus item;
          quality = description_quality_score item;
          score = (recency * (4 / 10) + quality * (3 / 10) + 3 / 10) * priority * image_bonus
      in round_ndigits4 score)"

section \<open>Selector (feeds/selector.py)\<close>

text \<open>
  \<^verbatim>\<open>sorted(scored_items, key=lambda x: x[1], reverse=True)\<close> is a stable sort by
  descending score: items of equal score keep their order.
\<close>

definition rank_items ::
  "NewsSelector \<Rightarrow> datetime \<Rightarrow> FeedItem list \<Rightarrow> (FeedItem \<times> rat) list" where
  "rank_items self now items =
     sort_key (\<lambda>x. - snd x) (map (\<lambda>item. (item, calculate_score self now item)) items)"

text \<open>The first loop of \<^verbatim>\<open>ensure_category_diversity\<close>; \<open>category_counts\<close> is the defaultdict.\<close>

fun diversity_pass ::
  "int \<Rightarrow> int \<Rightarrow> (FeedItem \<times> rat) list \<Rightarrow> FeedItem list \<Rightarrow> (ustr \<Rightarrow> int) \<Rightarrow> FeedItem list" where
  "diversity_pass top_n max_per_category [] selected category_counts = selected"
| "diversity_pass top_n max_per_category ((item, score) # rest) selected category_counts =
     (if top_n \<le> int (length selected) then selected
      else if max_per_category \<le> category_counts (category item)
      then diversity_pass top_n max_per_category rest selected category_counts
      else diversity_pass top_n max_per_category rest (selected @ [item])
             (category_counts(category item := category_counts (category item) + 1)))"

text \<open>The second loop, entered only when fewer than \<open>top_n\<close> items were selected.\<close>

fun backfill :: "int \<Rightarrow> (FeedItem \<times> rat) list \<Rightarrow> FeedItem list \<Rightarrow> FeedItem list" where
  "backfill top_n [] selected = selected"
| "backfill top_n ((item, score) # rest) selected =
     (let selected' = (if item \<notin> set selected then selected @ [item] else selected)
      in if top_n \<le> int (length selected') then selected'
         else backfill top_n rest selected')"

definition ensure_category_diversity :: "(FeedItem \<times> rat) list \<Rightarrow> int \<Rightarrow> FeedItem list" where
  "ensure_category_diversity scored_items top_n =
     (if int (length scored_items) \<le> top_n then map fst scored_items
      else
        (let max_per_category = max 2 (top_n div 2);
             selected = diversity_pass top_n max_per_category scored_items [] (\<lambda>c. 0)
         in if int (length selected) < top_n then backfill top_n scored_items selected
            else selected))"

text \<open>
  \<^verbatim>\<open>top_n = top_n or self.settings.top_n_items\<close>: the argument is optional, and both
  \<^verbatim>\<open>None\<close> and \<^verbatim>\<open>0\<close> are false in Python.
\<close>

definition select_top_items ::
  "NewsSelector \<Rightarrow> datetime \<Rightarrow> FeedItem list \<Rightarrow> int option \<Rightarrow> FeedItem list" where
  "select_top_items self now items top_n_arg =
     (let top_n = (case top_n_arg of
                     None \<Rightarrow> top_n_items (settings self)
                   | Some n \<Rightarrow> if n = 0 then top_n_items (settings self) else n)
      in if items = [] then []
         else
           (let items_with_images = filter (\<lambda>item. truthy_opt_str (image_url item)) items
            in if items_with_images = [] then []
               else ensure_category_diversity (rank_items self now items_with_images) top_n))"


section \<open>Strings (the \<^verbatim>\<open>str\<close> methods and regular expressions the summarizer uses)\<close>

text \<open>
  The code points that \<^verbatim>\<open>str.strip()\<close> removes and that \<^verbatim>\<open>\s\<close> matches in a
  \<^verbatim>\<open>str\<close> pattern: those for which \<^verbatim>\<open>str.isspace\<close> holds.
\<close>

definition isspace :: "nat \<Rightarrow> bool" where
  "isspace c =
     (c \<in> set [9, 10, 11, 12, 13, 28, 29, 30, 31, 32, 133, 160, 5760]
      \<or> (8192 \<le> c \<and> c \<le> 8202)
      \<or> c \<in> set [8232, 8233, 8239, 8287, 12288])"

definition strip :: "ustr \<Rightarrow> ustr" where
  "strip s = rev (dropWhile isspace (rev (dropWhile isspace s)))"

text \<open>\<^verbatim>\<open>s.strip(chars)\<close>: removes leading and trailing code points that occur in \<open>chars\<close>.\<close>

definition strip_chars :: "ustr \<Rightarrow> ustr \<Rightarrow> ustr" where
  "strip_chars chars s =
     rev (dropWhile (\<lambda>c. c \<in> set chars) (rev (dropWhile (\<lambda>c. c \<in> set chars) s)))"

text \<open>\<^verbatim>\<open>s.replace(" ", "")\<close>: every U+0020 is removed.\<close>

definition remove_spaces :: "ustr \<Rightarrow> ustr" where
  "remove_spaces s = filter (\<lambda>c. c \<noteq> 32) s"

text \<open>\<^verbatim>\<open>s.split(sep)\<close> for a separator of one code point; \<open>acc\<close> is the piece being read, reversed.\<close>

fun split_acc :: "nat \<Rightarrow> ustr \<Rightarrow> ustr \<Rightarrow> ustr list" where
  "split_acc sep acc [] = [rev acc]"
| "split_acc sep acc (c # cs) =
     (if c = sep then rev acc # split_acc sep [] cs else split_acc sep (c # acc) cs)"

definition str_split :: "ustr \<Rightarrow> nat \<Rightarrow> ustr list" where
  "str_split s sep = split_acc sep [] s"

text \<open>\<^verbatim>\<open>s.rfind(c)\<close> for one code point: the highest index holding \<open>c\<close>, or \<open>-1\<close>.\<close>

definition rfind :: "ustr \<Rightarrow> nat \<Rightarrow> int" where
  "rfind s c =
     (if c \<in> set s then int (length s) - 1 - int (length (takeWhile (\<lambda>x. x \<noteq> c) (rev s)))
      else - 1)"

text \<open>\<^verbatim>\<open>sep.join(parts)\<close>.\<close>

fun join :: "ustr \<Rightarrow> ustr list \<Rightarrow> ustr" where
  "join sep [] = []"
| "join sep [p] = p"
| "join sep (p # q # ps) = p @ sep @ join sep (q # ps)"

text \<open>\<^verbatim>\<open>sub in s\<close>.\<close>

fun contains :: "ustr \<Rightarrow> ustr \<Rightarrow> bool" where
  "contains sub [] = (sub = [])"
| "contains sub (c # cs) = (take (length sub) (c # cs) = sub \<or> contains sub cs)"

section \<open>Text cleanup (summarizer/gemini_client.py, \<^verbatim>\<open>_clean_text\<close>)\<close>

definition prefixes_to_remove :: "ustr list" where
  "prefixes_to_remove =
     [cps ''Brief Summary:'', cps ''Longer Summary:'', cps ''Breaking:'', cps ''Breaking News:'',
      cps ''News:'', cps ''Update:'', cps ''Alert:'', cps ''BREAKING:'']"

definition ascii_lower :: "nat \<Rightarrow> nat" where
  "ascii_lower c = (if 65 \<le> c \<and> c \<le> 90 then c + 32 else c)"

text \<open>
  Whether the code point \<open>c\<close> of the text matches the literal \<open>p\<close> of a pattern compiled
  with \<^verbatim>\<open>re.IGNORECASE\<close>, for the literals the prefix patterns are made of (ASCII
  letters, the colon and the space). Besides the two cases of a letter,
  \<^verbatim>\<open>i\<close> matches U+0130 and U+0131, \<^verbatim>\<open>k\<close> matches U+212A and \<^verbatim>\<open>s\<close> matches U+017F.
\<close>

definition matches_ignorecase :: "nat \<Rightarrow> nat \<Rightarrow> bool" where
  "matches_ignorecase p c =
     (ascii_lower c = ascii_lower p
      \<or> (ascii_lower p = 105 \<and> (c = 304 \<or> c = 305))
      \<or> (ascii_lower p = 107 \<and> c = 8490)
      \<or> (ascii_lower p = 115 \<and> c = 383))"

fun match_literal_ignorecase :: "ustr \<Rightarrow> ustr \<Rightarrow> ustr option" where
  "match_literal_ignorecase [] text = Some text"
| "match_literal_ignorecase (p # ps) [] = None"
| "match_literal_ignorecase (p # ps) (c # cs) =
     (if matches_ignorecase p c then match_literal_ignorecase ps cs else None)"

text \<open>
  \<^verbatim>\<open>re.sub(r"^Prefix:\s*", "", cleaned, flags=re.IGNORECASE)\<close>: without
  \<^verbatim>\<open>re.MULTILINE\<close> the anchor matches at the start of the string only, so at most one
  occurrence is removed, together with the white space that follows it.
\<close>

definition remove_prefix :: "ustr \<Rightarrow> ustr \<Rightarrow> ustr" where
  "remove_prefix prefix_pattern cleaned =
     (case match_literal_ignorecase prefix_pattern cleaned of
        None \<Rightarrow> cleaned
      | Some rest \<Rightarrow> dropWhile isspace rest)"

definition emoji_pattern :: "nat \<Rightarrow> bool" where
  "emoji_pattern c =
     ((128512 \<le> c \<and> c \<le> 128591)
      \<or> (127744 \<le> c \<and> c \<le> 128511)
      \<or> (128640 \<le> c \<and> c \<le> 128767)
      \<or> (127456 \<le> c \<and> c \<le> 127487)
      \<or> (9986 \<le> c \<and> c \<le> 10160)
      \<or> (9410 \<le> c \<and> c \<le> 127569)
      \<or> (129280 \<le> c \<and> c \<le> 129535)
      \<or> (129536 \<le> c \<and> c \<le> 129647))"

text \<open>\<^verbatim>\<open>re.sub(r'\s+', ' ', cleaned)\<close>: every maximal run of white space becomes one space.\<close>

fun collapse_whitespace :: "ustr \<Rightarrow> ustr" where
  "collapse_whitespace [] = []"
| "collapse_whitespace [c] = [if isspace c then 32 else c]"
| "collapse_whitespace (c # d # cs) =
     (if isspace c
      then (if isspace d then collapse_whitespace (d # cs) else 32 # collapse_whitespace (d # cs))
      else c # collapse_whitespace (d # cs))"

definition clean_text :: "ustr \<Rightarrow> ustr" where
  "clean_text text =
     (if text = [] then text
      else
        (let cleaned = foldl (\<lambda>cleaned prefix_pattern. remove_prefix prefix_pattern cleaned)
                         text prefixes_to_remove;
             cleaned = filter (\<lambda>c. \<not> emoji_pattern c) cleaned
         in strip (collapse_whitespace cleaned)))"

section \<open>Paragraph reflow (\<^verbatim>\<open>_format_caption_paragraphs\<close>)\<close>

text \<open>
  \<^verbatim>\<open>re.split(r'(?<=[.!?])\s+', s)\<close>: the string is cut at every run of white space that
  follows one of \<^verbatim>\<open>.\<close>, \<^verbatim>\<open>!\<close>, \<^verbatim>\<open>?\<close>, and the run is dropped. \<open>skipping\<close> holds
  while such a run is being dropped; \<open>acc\<close> is the sentence being read, reversed.
\<close>

fun split_sentences_acc :: "bool \<Rightarrow> ustr \<Rightarrow> ustr \<Rightarrow> ustr list" where
  "split_sentences_acc skipping acc [] = [rev acc]"
| "split_sentences_acc skipping acc (c # cs) =
     (if isspace c \<and> (skipping \<or> (acc \<noteq> [] \<and> hd acc \<in> set [46, 33, 63]))
      then (if skipping then split_sentences_acc True acc cs
            else rev acc # split_sentences_acc True [] cs)
      else split_sentences_acc False (c # acc) cs)"

definition split_sentences :: "ustr \<Rightarrow> ustr list" where
  "split_sentences s = split_sentences_acc False [] s"

text \<open>The loop over the sentences, and the statement after it that flushes the last paragraph.\<close>

fun group_sentences :: "nat \<Rightarrow> int \<Rightarrow> ustr list \<Rightarrow> ustr list \<Rightarrow> ustr list \<Rightarrow> nat \<Rightarrow> ustr list" where
  "group_sentences target_chars num_paragraphs [] paragraphs current_para current_length =
     (if current_para \<noteq> [] then paragraphs @ [join [32] current_para] else paragraphs)"
| "group_sentences target_chars num_paragraphs (sentence # rest) paragraphs current_para current_length =
     (let current_para = current_para @ [sentence];
          current_length = current_length + length sentence
      in if target_chars \<le> current_length \<and> int (length paragraphs) < num_paragraphs - 1
         then group_sentences target_chars num_paragraphs rest
                (paragraphs @ [join [32] current_para]) [] 0
         else group_sentences target_chars num_paragraphs rest
                paragraphs current_para current_length)"

text \<open>The callers leave \<^verbatim>\<open>num_paragraphs\<close> at its default, 4.\<close>

definition format_caption_paragraphs :: "ustr \<Rightarrow> ustr" where
  "format_caption_paragraphs caption =
     (let num_paragraphs = 4
      in if caption = [] \<or> contains [10, 10] caption then caption
         else
           (let sentences = split_sentences (strip caption)
            in if int (length sentences) \<le> num_paragraphs then caption
               else
                 (let target_chars = length caption div nat num_paragraphs
                  in join [10, 10]
                       (group_sentences target_chars num_paragraphs sentences [] [] 0))))"

section \<open>Decoded JSON and the dynamic operations applied to it\<close>

text \<open>
  The value \<^verbatim>\<open>json.loads\<close> returns. A number is kept as a rational (the code only
  tests numbers for truth); an object is its key-value pairs in order, with distinct keys.
\<close>

datatype json =
    JNull
  | JBool bool
  | JNum rat
  | JStr ustr
  | JArr "json list"
  | JObj "(ustr \<times> json) list"

datatype exn = AttributeError | TypeError | ValidationError

text \<open>An operation that may raise returns \<open>Inl\<close> of the exception; \<open>and_then\<close> sequences two.\<close>

definition and_then :: "exn + 'a \<Rightarrow> ('a \<Rightarrow> exn + 'b) \<Rightarrow> exn + 'b" where
  "and_then m f = (case m of Inl e \<Rightarrow> Inl e | Inr v \<Rightarrow> f v)"

fun truthy :: "json \<Rightarrow> bool" where
  "truthy JNull = False"
| "truthy (JBool b) = b"
| "truthy (JNum n) = (n \<noteq> 0)"
| "truthy (JStr s) = (s \<noteq> [])"
| "truthy (JArr xs) = (xs \<noteq> [])"
| "truthy (JObj kvs) = (kvs \<noteq> [])"

text \<open>\<^verbatim>\<open>data.get(key, default)\<close>: only a dict has the method.\<close>

fun dict_get :: "json \<Rightarrow> ustr \<Rightarrow> json \<Rightarrow> exn + json" where
  "dict_get (JObj kvs) key default_value =
     Inr (case map_of kvs key of None \<Rightarrow> default_value | Some v \<Rightarrow> v)"
| "dict_get data key default_value = Inl AttributeError"

text \<open>\<^verbatim>\<open>len(v)\<close>.\<close>

fun py_len :: "json \<Rightarrow> exn + nat" where
  "py_len (JStr s) = Inr (length s)"
| "py_len (JArr xs) = Inr (length xs)"
| "py_len (JObj kvs) = Inr (length kvs)"
| "py_len v = Inl TypeError"

text \<open>\<^verbatim>\<open>v[:65]\<close>: strings and lists can be sliced, a dict raises as the others do.\<close>

fun slice_65 :: "json \<Rightarrow> exn + json" where
  "slice_65 (JStr s) = Inr (JStr (take 65 s))"
| "slice_65 (JArr xs) = Inr (JArr (take 65 xs))"
| "slice_65 v = Inl TypeError"

text \<open>\<^verbatim>\<open>for h in v\<close>: a dict iterates over its keys, a string over its characters.\<close>

fun py_iter :: "json \<Rightarrow> exn + json list" where
  "py_iter (JArr xs) = Inr xs"
| "py_iter (JObj kvs) = Inr (map (\<lambda>kv. JStr (fst kv)) kvs)"
| "py_iter (JStr s) = Inr (map (\<lambda>c. JStr [c]) s)"
| "py_iter v = Inl TypeError"

text \<open>
  \<^verbatim>\<open>_clean_text\<close> on a decoded value: a false value is returned as it is
  (\<^verbatim>\<open>if not text: return text\<close>), a string is cleaned, and \<^verbatim>\<open>re.sub\<close> raises on
  anything else.
\<close>

definition clean_text_value :: "json \<Rightarrow> exn + json" where
  "clean_text_value text =
     (if \<not> truthy text then Inr text
      else (case text of JStr s \<Rightarrow> Inr (JStr (clean_text s)) | _ \<Rightarrow> Inl TypeError))"

section \<open>Response validation (summarizer/gemini_client.py)\<close>

record SummaryResult =
  sr_title :: ustr
  sr_description :: ustr
  sr_caption :: ustr
  sr_hashtags :: "ustr list"
  sr_source :: ustr
  sr_feed_item_id :: ustr

text \<open>
  The caption branch taken when \<^verbatim>\<open>len(caption) > 1400\<close>, the same lines in
  \<^verbatim>\<open>_parse_response\<close> and \<^verbatim>\<open>_parse_batch_response\<close>.
\<close>

definition truncate_caption :: "ustr \<Rightarrow> ustr" where
  "truncate_caption caption =
     (let caption = take 1400 caption;
          last_period = rfind caption 46
      in if 1200 < last_period then take (nat (last_period + 1)) caption else caption)"

text \<open>
  The caption policy: \<open>None\<close> is the skipped item (\<^verbatim>\<open>continue\<close>, or \<^verbatim>\<open>return None\<close>
  in the single-item parser). A cleaned value that is not a string is false, so its
  length is 0 or \<^verbatim>\<open>len\<close> raises.
\<close>

definition caption_policy :: "json \<Rightarrow> exn + ustr option" where
  "caption_policy caption =
     and_then (py_len caption) (\<lambda>n.
       if 1400 < n
       then (case caption of JStr s \<Rightarrow> Inr (Some (truncate_caption s)) | _ \<Rightarrow> Inl AttributeError)
       else if n < 1200 then Inr None
       else (case caption of JStr s \<Rightarrow> Inr (Some s) | _ \<Rightarrow> Inl AttributeError))"

text \<open>The elements of the comprehension must all have \<^verbatim>\<open>strip\<close>, that is, be strings.\<close>

fun all_strings :: "json list \<Rightarrow> exn + ustr list" where
  "all_strings [] = Inr []"
| "all_strings (JStr s # rest) = and_then (all_strings rest) (\<lambda>ss. Inr (s # ss))"
| "all_strings (v # rest) = Inl AttributeError"

definition normalize_hashtags :: "json \<Rightarrow> exn + ustr list" where
  "normalize_hashtags hashtags =
     (let hashtags = (case hashtags of
                        JStr s \<Rightarrow> JArr (map (\<lambda>h. JStr (strip_chars [35] (strip h))) (str_split s 44))
                      | _ \<Rightarrow> hashtags)
      in and_then (py_iter hashtags) (\<lambda>hs.
         and_then (all_strings hs) (\<lambda>hs.
           Inr (take 15 (map (\<lambda>h. remove_spaces (strip_chars [35] (strip h)))
                          (filter (\<lambda>h. strip h \<noteq> []) hs))))))"

text \<open>
  Building the \<^verbatim>\<open>SummaryResult\<close>: pydantic rejects a field declared \<^verbatim>\<open>str\<close> that
  is given a value of another type.
\<close>

fun make_summary ::
  "json \<Rightarrow> json \<Rightarrow> ustr \<Rightarrow> ustr list \<Rightarrow> json \<Rightarrow> ustr \<Rightarrow> exn + SummaryResult" where
  "make_summary (JStr t) (JStr d) caption hashtags (JStr source) feed_item_id =
     Inr \<lparr>sr_title = t, sr_description = d, sr_caption = caption,
          sr_hashtags = hashtags, sr_source = source, sr_feed_item_id = feed_item_id\<rparr>"
| "make_summary t d caption hashtags source feed_item_id = Inl ValidationError"

text \<open>
  What both parsers do with one decoded object, in the order of the source:
  \<open>summary_from_data\<close> covers the statements up to the caption check and returns
  \<open>Inr None\<close> when the caption is too short, \<open>summary_rest\<close> the statements after
  it. \<open>Inl\<close> is a raised exception.
\<close>

definition summary_rest ::
  "json \<Rightarrow> json \<Rightarrow> json \<Rightarrow> ustr \<Rightarrow> ustr \<Rightarrow> exn + SummaryResult" where
  "summary_rest data title_value description_value caption feed_item_id =
     (let caption = format_caption_paragraphs caption
      in and_then (dict_get data (cps ''hashtags'') (JArr [])) (\<lambda>v.
         and_then (normalize_hashtags v) (\<lambda>hashtags.
         and_then (dict_get data (cps ''source'') (JStr (cps ''Unknown''))) (\<lambda>v.
         and_then (clean_text_value v) (\<lambda>source.
           make_summary title_value description_value caption hashtags source feed_item_id)))))"

definition summary_from_data :: "json \<Rightarrow> ustr \<Rightarrow> ustr \<Rightarrow> exn + SummaryResult option" where
  "summary_from_data data original_title feed_item_id =
     and_then (dict_get data (cps ''title'') (JStr [])) (\<lambda>v.
     and_then (clean_text_value v) (\<lambda>generated_title.
     and_then (if length original_title \<le> 65 then Inr (JStr (take 65 original_title))
               else slice_65 generated_title) (\<lambda>title_value.
     and_then (dict_get data (cps ''description'') (JStr [])) (\<lambda>v.
     and_then (clean_text_value v) (\<lambda>description_value.
     and_then (py_len description_value) (\<lambda>desc_len.
     and_then (dict_get data (cps ''caption'') (JStr [])) (\<lambda>v.
     and_then (clean_text_value v) (\<lambda>caption.
     and_then (caption_policy caption) (\<lambda>kept.
       case kept of
         None \<Rightarrow> Inr None
       | Some caption \<Rightarrow>
           and_then (summary_rest data title_value description_value caption feed_item_id)
             (\<lambda>r. Inr (Some r)))))))))))"

text \<open>The loop of \<^verbatim>\<open>_parse_batch_response\<close> over \<^verbatim>\<open>zip(data_array, items)\<close>.\<close>

fun parse_batch_items :: "(json \<times> FeedItem) list \<Rightarrow> exn + SummaryResult list" where
  "parse_batch_items [] = Inr []"
| "parse_batch_items ((data, item) # rest) =
     and_then (summary_from_data data (title item) (item_id item)) (\<lambda>r.
     and_then (parse_batch_items rest) (\<lambda>results.
       Inr (case r of None \<Rightarrow> results | Some s \<Rightarrow> s # results)))"

section \<open>Locating the JSON in the response text\<close>

text \<open>
  Both parsers search the response twice, with \<^verbatim>\<open>re.DOTALL\<close>: first for a fenced block,
  \<^verbatim>\<open>```(?:json)?\s*(\[.*?\])\s*```\<close> (braces instead of brackets in the single-item
  parser), whose group 1 is taken, then for \<^verbatim>\<open>\[.*\]\<close>. The functions below take the
  opening and the closing code point as \<open>opening\<close> and \<open>closing\<close>.

  \<open>fenced_close\<close> is the lazy \<^verbatim>\<open>.*?\<close>: it stops at the first closing code point that
  is followed by optional white space and the fence. \<open>acc\<close> is the group read so far,
  reversed.
\<close>

fun fenced_close :: "nat \<Rightarrow> ustr \<Rightarrow> ustr \<Rightarrow> ustr option" where
  "fenced_close closing acc [] = None"
| "fenced_close closing acc (c # cs) =
     (if c = closing \<and> take 3 (dropWhile isspace cs) = cps ''```''
      then Some (rev (c # acc))
      else fenced_close closing (c # acc) cs)"

text \<open>A match of the fenced pattern that starts at the head of \<open>s\<close>.\<close>

definition fenced_at :: "nat \<Rightarrow> nat \<Rightarrow> ustr \<Rightarrow> ustr option" where
  "fenced_at opening closing s =
     (if take 3 s = cps ''```''
      then (let r = drop 3 s;
                r = (if take 4 r = cps ''json'' then drop 4 r else r);
                r = dropWhile isspace r
            in case r of
                 [] \<Rightarrow> None
               | c # cs \<Rightarrow> if c = opening then fenced_close closing [c] cs else None)
      else None)"

text \<open>\<^verbatim>\<open>re.search\<close> tries the start positions from left to right.\<close>

fun search_fenced :: "nat \<Rightarrow> nat \<Rightarrow> ustr \<Rightarrow> ustr option" where
  "search_fenced opening closing [] = None"
| "search_fenced opening closing (c # cs) =
     (case fenced_at opening closing (c # cs) of
        Some g \<Rightarrow> Some g
      | None \<Rightarrow> search_fenced opening closing cs)"

text \<open>The greedy pattern: from the first opening code point to the last closing one after it.\<close>

definition search_raw :: "nat \<Rightarrow> nat \<Rightarrow> ustr \<Rightarrow> ustr option" where
  "search_raw opening closing s =
     (case dropWhile (\<lambda>c. c \<noteq> opening) s of
        [] \<Rightarrow> None
      | c # body \<Rightarrow>
          if closing \<in> set body then Some (c # take (nat (rfind body closing + 1)) body)
          else None)"

definition extract_json :: "nat \<Rightarrow> nat \<Rightarrow> ustr \<Rightarrow> ustr option" where
  "extract_json opening closing response_text =
     (case search_fenced opening closing response_text of
        Some g \<Rightarrow> Some g
      | None \<Rightarrow> search_raw opening closing response_text)"

section \<open>The two parsers\<close>


definition parse_batch_response ::
  "(ustr \<Rightarrow> json option) \<Rightarrow> ustr \<Rightarrow> FeedItem list \<Rightarrow> SummaryResult list option" where
  "parse_batch_response json_loads response_text items =
     (case extract_json 91 93 response_text of
        None \<Rightarrow> None
      | Some json_str \<Rightarrow>
          (case json_loads json_str of
             Some (JArr data_array) \<Rightarrow>
               (case parse_batch_items (zip data_array items) of
                  Inl e \<Rightarrow> None
                | Inr results \<Rightarrow> Some results)
           | _ \<Rightarrow> None))"

section \<open>Summarization client: retry and model fallback\<close>










section \<open>Notions the properties are stated with\<close>

subsection \<open>Diversity\<close>

definition cat_count :: "ustr \<Rightarrow> FeedItem list \<Rightarrow> nat" where
  "cat_count c xs = length (filter (\<lambda>item. category item = c) xs)"

text \<open>
  How many of the candidates \<open>xs\<close> can be admitted when no category may supply more
  than \<open>cap\<close> items: every category contributes its items up to the cap.
\<close>

definition admissible_under_cap :: "int \<Rightarrow> FeedItem list \<Rightarrow> int" where
  "admissible_under_cap cap xs =
     (\<Sum>c\<leftarrow>remdups (map category xs). min (int (cat_count c xs)) cap)"

subsection \<open>The score as the specification words it\<close>

text \<open>
  Each sub-score follows the specification's sentence, with \<open>None\<close> for a missing
  field: a step function given by its table of bounds, and the first configured feed of
  the item's category for the priority.
\<close>

definition step_function :: "('a::linorder \<times> rat) list \<Rightarrow> rat \<Rightarrow> 'a \<Rightarrow> rat" where
  "step_function table otherwise x =
     (case find (\<lambda>row. x < fst row) table of Some row \<Rightarrow> snd row | None \<Rightarrow> otherwise)"

definition spec_recency :: "datetime \<Rightarrow> FeedItem \<Rightarrow> rat" where
  "spec_recency now item =
     (case published_date item of
        None \<Rightarrow> 1 / 2
      | Some d \<Rightarrow>
          step_function
            [(hours 1, 1), (hours 6, 9 / 10), (hours 12, 8 / 10),
             (days 1, 7 / 10), (days 2, 1 / 2), (days 7, 3 / 10)]
            (1 / 10) (now - d))"

definition spec_quality :: "FeedItem \<Rightarrow> rat" where
  "spec_quality item =
     (case description item of
        None \<Rightarrow> 1 / 2
      | Some d \<Rightarrow> step_function [(50, 6 / 10), (100, 8 / 10), (500, 1)] (9 / 10) (length d))"

definition spec_image_bonus :: "FeedItem \<Rightarrow> rat" where
  "spec_image_bonus item = (case image_url item of None \<Rightarrow> 1 | Some u \<Rightarrow> 12 / 10)"

definition spec_source_priority :: "feed_entry list \<Rightarrow> FeedItem \<Rightarrow> rat" where
  "spec_source_priority feeds item =
     (case find (\<lambda>feed. fe_category feed = Some (category item)) feeds of
        None \<Rightarrow> 1
      | Some feed \<Rightarrow> (case fe_priority feed of None \<Rightarrow> 1 | Some p \<Rightarrow> p))"

definition spec_score :: "NewsSelector \<Rightarrow> datetime \<Rightarrow> FeedItem \<Rightarrow> rat" where
  "spec_score self now item =
     round_ndigits4
       ((4 / 10 * spec_recency now item + 3 / 10 * spec_quality item + 3 / 10)
        * spec_source_priority (feed_config self) item * spec_image_bonus item)"

text \<open>
  The recency bucket of an age: how many of the six bounds the age has reached.
\<close>

definition recency_bucket :: "timedelta \<Rightarrow> nat" where
  "recency_bucket age =
     length (takeWhile (\<lambda>bound. bound \<le> age)
               [hours 1, hours 6, hours 12, days 1, days 2, days 7])"

text \<open>The item with an empty description or image URL replaced by a missing one.\<close>

definition empty_as_missing :: "FeedItem \<Rightarrow> FeedItem" where
  "empty_as_missing item =
     item\<lparr>description := (if description item = Some [] then None else description item),
          image_url := (if image_url item = Some [] then None else image_url item)\<rparr>"

subsection \<open>Example inputs\<close>

text \<open>A selector with no configured feeds and the default settings of config.py.\<close>

definition example_selector :: NewsSelector where
  "example_selector =
     \<lparr>feed_config = [],
      settings = \<lparr>top_n_items = 5, gemini_model = cps ''gemini-2.5-pro''\<rparr>\<rparr>"

text \<open>An item with an image and neither description nor date, of the given name and category.\<close>

definition example_item :: "string \<Rightarrow> string \<Rightarrow> FeedItem" where
  "example_item name cat =
     \<lparr>item_id = cps name, feed_url = cps ''https://example.org/feed'', title = cps name,
      link = cps ''https://example.org/a'', description = None, published_date = None,
      image_url = Some (cps ''https://example.org/a.png''), category = cps cat,
      source_name = None\<rparr>"

definition example_batch :: "FeedItem list" where
  "example_batch =
     [example_item ''a1'' ''tech'', example_item ''a2'' ''tech'', example_item ''a3'' ''tech'',
      example_item ''a4'' ''tech'', example_item ''b1'' ''world'']"

definition example_item_empty_description :: FeedItem where
  "example_item_empty_description = (example_item ''a1'' ''tech'')\<lparr>description := Some []\<rparr>"

definition example_item_dated :: FeedItem where
  "example_item_dated = (example_item ''a1'' ''tech'')\<lparr>published_date := Some 0\<rparr>"

subsection \<open>Well-formed backend responses\<close>

text \<open>
  An object of the shape \<^verbatim>\<open>_get_response_schema\<close> requests: the five required
  properties, \<^verbatim>\<open>hashtags\<close> an array of strings and the others strings.
\<close>

fun is_string :: "json option \<Rightarrow> bool" where
  "is_string (Some (JStr s)) = True"
| "is_string v = False"

fun is_string_value :: "json \<Rightarrow> bool" where
  "is_string_value (JStr s) = True"
| "is_string_value v = False"

fun is_string_array :: "json option \<Rightarrow> bool" where
  "is_string_array (Some (JArr xs)) = list_all is_string_value xs"
| "is_string_array v = False"

fun matches_response_schema :: "json \<Rightarrow> bool" where
  "matches_response_schema (JObj kvs) =
     (is_string (map_of kvs (cps ''title'')) \<and> is_string (map_of kvs (cps ''description''))
      \<and> is_string (map_of kvs (cps ''caption'')) \<and> is_string_array (map_of kvs (cps ''hashtags''))
      \<and> is_string (map_of kvs (cps ''source'')))"
| "matches_response_schema v = False"

text \<open>The string held by a property of an object, empty when there is none.\<close>

fun string_field :: "json \<Rightarrow> string \<Rightarrow> ustr" where
  "string_field (JObj kvs) name = (case map_of kvs (cps name) of Some (JStr s) \<Rightarrow> s | _ \<Rightarrow> [])"
| "string_field v name = []"

text \<open>The caption as the validator measures it: after \<^verbatim>\<open>_clean_text\<close>.\<close>

definition cleaned_caption :: "json \<Rightarrow> ustr" where
  "cleaned_caption data = clean_text (string_field data ''caption'')"


definition in_policy :: "json \<Rightarrow> bool" where
  "in_policy data =
     (matches_response_schema data
      \<and> 1200 \<le> length (cleaned_caption data) \<and> length (cleaned_caption data) \<le> 1400)"


subsection \<open>Example responses\<close>

text \<open>
  A response object with the given caption and a description of 200 characters, the JSON
  text of an array of such objects, and a decoder that maps that text to the array (the
  captions of the examples need no escaping).
\<close>

definition example_object :: "ustr \<Rightarrow> json" where
  "example_object caption =
     JObj [(cps ''title'', JStr (cps ''Generated title'')),
           (cps ''description'', JStr (replicate 200 120)),
           (cps ''caption'', JStr caption),
           (cps ''hashtags'', JArr [JStr (cps ''news''), JStr (cps ''tech'')]),
           (cps ''source'', JStr (cps ''Example News''))]"

definition example_object_text :: "ustr \<Rightarrow> ustr" where
  "example_object_text caption =
     [123] @ [34] @ cps ''title'' @ [34, 58, 34] @ cps ''Generated title'' @ [34, 44]
     @ [34] @ cps ''description'' @ [34, 58, 34] @ replicate 200 120 @ [34, 44]
     @ [34] @ cps ''caption'' @ [34, 58, 34] @ caption @ [34, 44]
     @ [34] @ cps ''hashtags'' @ [34, 58, 91, 34] @ cps ''news'' @ [34, 44, 34] @ cps ''tech''
     @ [34, 93, 44]
     @ [34] @ cps ''source'' @ [34, 58, 34] @ cps ''Example News'' @ [34] @ [125]"

definition example_response_text :: "ustr list \<Rightarrow> ustr" where
  "example_response_text captions = [91] @ join [44] (map example_object_text captions) @ [93]"

definition example_json_loads :: "ustr list \<Rightarrow> ustr \<Rightarrow> json option" where
  "example_json_loads captions json_str =
     (if json_str = example_response_text captions
      then Some (JArr (map example_object captions)) else None)"


definition example_caption :: "nat \<Rightarrow> ustr" where
  "example_caption n = replicate n 120"

text \<open>Captions of 1500 characters with one period, at offset 1250 and at offset 1200.\<close>

definition example_caption_period_1250 :: ustr where
  "example_caption_period_1250 = replicate 1250 120 @ [46] @ replicate 249 120"

definition example_caption_period_1200 :: ustr where
  "example_caption_period_1200 = replicate 1200 120 @ [46] @ replicate 299 120"

definition example_items :: "FeedItem list" where
  "example_items =
     [example_item ''a1'' ''tech'', example_item ''b1'' ''world'', example_item ''c1'' ''sport'']"

subsection \<open>Example client and backends\<close>




subsection \<open>Further example responses\<close>

text \<open>
  A caption of 1209 characters that holds a fenced block, an object whose description is
  \<^verbatim>\<open>null\<close>, and the text and the decoder of an array that ends with that object.
\<close>

definition example_caption_fenced :: ustr where
  "example_caption_fenced = replicate 600 120 @ cps ''```[x]```'' @ replicate 600 120"






section \<open>Scorer: properties\<close>

lemma spec_recency_eq: "spec_recency now item = calculate_recency_score now item"
  by (simp add: spec_recency_def calculate_recency_score_def step_function_def Let_def
           split: option.splits)

lemma spec_source_priority_eq: "spec_source_priority feeds item = get_source_priority feeds item"
  by (induction feeds) (simp_all add: spec_source_priority_def)

lemma get_source_priority_category:
  "category item' = category item \<Longrightarrow>
   get_source_priority feeds item' = get_source_priority feeds item"
  by (induction feeds) simp_all

lemma spec_quality_eq:
  "spec_quality (empty_as_missing item) = description_quality_score item"
  by (simp add: spec_quality_def description_quality_score_def empty_as_missing_def
        step_function_def Let_def split: option.splits)

lemma spec_image_bonus_eq:
  "spec_image_bonus (empty_as_missing item) = has_image_bonus item"
  by (cases "image_url item")
     (simp_all add: spec_image_bonus_def has_image_bonus_def empty_as_missing_def)

text \<open>
  Claim C8, as the code has it. \<open>calculate_score\<close> is the specification's formula,
  \<open>round((0.4 * recency + 0.3 * quality + 0.3) * source_priority * image_bonus, 4)\<close>
  with the recency steps, the description-length buckets, the per-category priority
  defaulting to 1.0 and the image bonus of 1.2, once an empty description and an empty
  image URL are counted as missing: the code tests both fields for truth, and the empty
  string is false.
\<close>

theorem calculate_score_formula:
  "calculate_score self now item = spec_score self now (empty_as_missing item)"
proof -
  have r: "spec_recency now (empty_as_missing item) = calculate_recency_score now item"
    by (simp add: spec_recency_eq) (simp add: calculate_recency_score_def empty_as_missing_def)
  have p: "spec_source_priority (feed_config self) (empty_as_missing item)
           = get_source_priority (feed_config self) item"
    unfolding spec_source_priority_eq
    by (rule get_source_priority_category) (simp add: empty_as_missing_def)
  show ?thesis
    unfolding calculate_score_def spec_score_def Let_def r p spec_quality_eq spec_image_bonus_eq
    by (simp add: mult.commute)
qed

text \<open>The formula at an item with an image, no description and no date: 0.65 * 1.2 = 0.78.\<close>

theorem calculate_score_formula_witness:
  "calculate_score example_selector 0 (example_item ''a1'' ''tech'') = 39 / 50
   \<and> spec_score example_selector 0 (empty_as_missing (example_item ''a1'' ''tech'')) = 39 / 50"
  using calculate_score_formula [of example_selector 0 "example_item ''a1'' ''tech''"]
  by (simp add: calculate_score_def example_selector_def example_item_def
        calculate_recency_score_def has_image_bonus_def description_quality_score_def
        round_ndigits4_def round_half_even_def cps_def)

text \<open>
  Claim C8 as stated fails at a description that is present and empty: its length, 0, is
  in the bucket below 50 characters, whose score is 0.6, and the code scores it 0.5 as it
  does a missing one. The code returns 0.78 where the formula gives 0.816.
\<close>

theorem calculate_score_empty_description:
  "calculate_score example_selector 0 example_item_empty_description = 39 / 50
   \<and> spec_score example_selector 0 example_item_empty_description = 102 / 125"
  by (simp add: calculate_score_def spec_score_def example_selector_def example_item_def
        example_item_empty_description_def
        calculate_recency_score_def has_image_bonus_def description_quality_score_def
        spec_recency_def spec_quality_def spec_image_bonus_def spec_source_priority_def
        step_function_def round_ndigits4_def round_half_even_def cps_def)

lemma recency_score_bucket:
  "published_date item = Some d \<Longrightarrow>
   calculate_recency_score now item
   = [1, 9 / 10, 8 / 10, 7 / 10, 5 / 10, 3 / 10, 1 / 10] ! recency_bucket (now - d)"
  by (simp add: calculate_recency_score_def recency_bucket_def hours_def days_def Let_def)

text \<open>
  Claim C4, as the code has it. The score is a function of the item, the static
  configuration and the clock reading, and the clock enters through the recency bucket
  only: two evaluations agree when the item has no publication date, and when the two
  readings put the item's age in the same recency bucket.
\<close>

theorem calculate_score_clock_only_through_recency:
  "(published_date item = None \<longrightarrow>
      calculate_score self now1 item = calculate_score self now2 item)
   \<and> (\<forall>d. published_date item = Some d
           \<and> recency_bucket (now1 - d) = recency_bucket (now2 - d) \<longrightarrow>
      calculate_score self now1 item = calculate_score self now2 item)"
proof (intro conjI allI impI)
  assume "published_date item = None"
  then show "calculate_score self now1 item = calculate_score self now2 item"
    by (simp add: calculate_score_def calculate_recency_score_def)
next
  fix d
  assume "published_date item = Some d \<and> recency_bucket (now1 - d) = recency_bucket (now2 - d)"
  then have "calculate_recency_score now1 item = calculate_recency_score now2 item"
    by (simp add: recency_score_bucket)
  then show "calculate_score self now1 item = calculate_score self now2 item"
    by (simp add: calculate_score_def)
qed

text \<open>
  An item without a date scores the same eight days apart, and a dated item the same two
  and three hours after its publication.
\<close>

theorem calculate_score_clock_only_through_recency_witness:
  "published_date (example_item ''a1'' ''tech'') = None
   \<and> calculate_score example_selector (hours 0) (example_item ''a1'' ''tech'')
       = calculate_score example_selector (days 8) (example_item ''a1'' ''tech'')
   \<and> published_date example_item_dated = Some 0
   \<and> recency_bucket (hours 2 - 0) = recency_bucket (hours 3 - 0)
   \<and> calculate_score example_selector (hours 2) example_item_dated
       = calculate_score example_selector (hours 3) example_item_dated"
proof -
  have a: "published_date (example_item ''a1'' ''tech'') = None"
    by (simp add: example_item_def)
  have b: "published_date example_item_dated = Some 0"
    by (simp add: example_item_dated_def example_item_def)
  have c: "recency_bucket (hours 2 - 0) = recency_bucket (hours 3 - 0)"
    by (simp add: recency_bucket_def hours_def days_def)
  show ?thesis
    using calculate_score_clock_only_through_recency
            [of "example_item ''a1'' ''tech''" example_selector "hours 0" "days 8"]
          calculate_score_clock_only_through_recency
            [of example_item_dated example_selector "hours 2" "hours 3"]
          a b c
    by blast
qed

text \<open>
  Claim C4 as stated fails: the same item under the same configuration scores 1.02 when
  it is evaluated at its publication time and 0.588 eight days later.
\<close>

theorem calculate_score_depends_on_clock:
  "calculate_score example_selector (hours 0) example_item_dated = 51 / 50
   \<and> calculate_score example_selector (days 8) example_item_dated = 147 / 250"
  by (simp add: calculate_score_def example_selector_def example_item_def
        example_item_dated_def hours_def days_def
        calculate_recency_score_def has_image_bonus_def description_quality_score_def
        round_ndigits4_def round_half_even_def cps_def)

section \<open>Selector: properties\<close>

lemma cat_count_simps [simp]:
  "cat_count c [] = 0"
  "cat_count c (x # xs) = (if category x = c then 1 else 0) + cat_count c xs"
  "cat_count c (xs @ ys) = cat_count c xs + cat_count c ys"
  by (simp_all add: cat_count_def)

text \<open>
  Invariant of the first loop: \<open>category_counts\<close> counts the selected items by category,
  and no count is above the cap.
\<close>

lemma diversity_pass_count_le:
  assumes "\<And>c. counts c = int (cat_count c sel)" and "\<And>c. counts c \<le> cap"
  shows "int (cat_count c (diversity_pass top_n cap scored sel counts)) \<le> cap"
  using assms
proof (induction scored arbitrary: sel counts)
  case Nil
  then show ?case by (metis diversity_pass.simps(1))
next
  case (Cons p rest)
  obtain item score where p: "p = (item, score)" by (cases p)
  show ?case
  proof (cases "top_n \<le> int (length sel)")
    case True
    then show ?thesis using Cons.prems p by (metis diversity_pass.simps(2))
  next
    case False
    show ?thesis
    proof (cases "cap \<le> counts (category item)")
      case True
      then show ?thesis using False p Cons.IH [OF Cons.prems] by simp
    next
      case cf: False
      have "int (cat_count c (diversity_pass top_n cap rest (sel @ [item])
              (counts(category item := counts (category item) + 1)))) \<le> cap"
        by (rule Cons.IH) (use Cons.prems cf in auto)
      then show ?thesis using False cf p by simp
    qed
  qed
qed

text \<open>
  When the first loop ends with fewer than \<open>top_n\<close> items it has seen every candidate,
  and each category has supplied all its items up to the cap.
\<close>

lemma diversity_pass_exhausted:
  assumes "\<And>c. counts c = int (cat_count c sel)" and "\<And>c. counts c \<le> cap"
    and "int (length (diversity_pass top_n cap scored sel counts)) < top_n"
  shows "int (cat_count c (diversity_pass top_n cap scored sel counts))
         = min (int (cat_count c sel) + int (cat_count c (map fst scored))) cap"
  using assms
proof (induction scored arbitrary: sel counts)
  case Nil
  then show ?case
    by (metis cat_count_simps(1) list.simps(8) diversity_pass.simps(1) add.right_neutral
          min.absorb1 of_nat_0)
next
  case (Cons p rest)
  obtain item score where p: "p = (item, score)" by (cases p)
  have nt: "\<not> top_n \<le> int (length sel)"
    using Cons.prems(3) p by auto
  show ?case
  proof (cases "cap \<le> counts (category item)")
    case True
    have eq: "counts (category item) = cap"
      using True Cons.prems(2) [of "category item"] by simp
    have "int (cat_count c (diversity_pass top_n cap rest sel counts))
         = min (int (cat_count c sel) + int (cat_count c (map fst rest))) cap"
      by (rule Cons.IH) (use Cons.prems nt True p in auto)
    then show ?thesis using nt True p eq Cons.prems(1) [of "category item"] by auto
  next
    case cf: False
    let ?counts = "counts(category item := counts (category item) + 1)"
    have a: "?counts c' = int (cat_count c' (sel @ [item]))" for c'
      using Cons.prems(1) [of c'] by auto
    have b: "?counts c' \<le> cap" for c'
      using Cons.prems(2) [of c'] cf by auto
    have c: "int (length (diversity_pass top_n cap rest (sel @ [item]) ?counts)) < top_n"
      using Cons.prems(3) nt cf p by simp
    have "int (cat_count c (diversity_pass top_n cap rest (sel @ [item]) ?counts))
         = min (int (cat_count c (sel @ [item])) + int (cat_count c (map fst rest))) cap"
      using a b c by (rule Cons.IH)
    then show ?thesis using nt cf p by auto
  qed
qed

lemma length_sum_cat_count:
  assumes "finite C" and "category ` set xs \<subseteq> C"
  shows "int (length xs) = (\<Sum>c\<in>C. int (cat_count c xs))"
  using assms(2)
proof (induction xs)
  case Nil
  then show ?case by simp
next
  case (Cons x xs)
  have in_C: "category x \<in> C" using Cons.prems by simp
  have "(\<Sum>c\<in>C. int (cat_count c (x # xs)))
        = (\<Sum>c\<in>C. (if category x = c then 1 else 0) + int (cat_count c xs))"
    by (intro sum.cong) auto
  also have "\<dots> = (\<Sum>c\<in>C. (if category x = c then 1 else 0)) + (\<Sum>c\<in>C. int (cat_count c xs))"
    by (simp add: sum.distrib)
  also have "(\<Sum>c\<in>C. (if category x = c then 1 else 0)) = (1::int)"
    using assms(1) in_C by simp
  finally show ?case using Cons by simp
qed

lemma admissible_sum:
  "admissible_under_cap cap xs = (\<Sum>c\<in>category ` set xs. min (int (cat_count c xs)) cap)"
  unfolding admissible_under_cap_def
  by (simp add: sum_list_distinct_conv_sum_set)

lemma ensure_category_diversity_scarcity:
  assumes "max 2 (top_n div 2) < int (cat_count c (ensure_category_diversity scored top_n))"
  shows "admissible_under_cap (max 2 (top_n div 2)) (map fst scored) < top_n"
proof -
  let ?cap = "max 2 (top_n div 2)"
  let ?xs = "map fst scored"
  let ?C = "category ` set ?xs"
  let ?sel = "diversity_pass top_n ?cap scored [] (\<lambda>c. 0)"
  have inv1: "(\<lambda>c. 0) c' = int (cat_count c' [])" for c' by simp
  have inv2: "(\<lambda>c. 0::int) c' \<le> ?cap" for c' by simp
  show ?thesis
  proof (cases "int (length scored) \<le> top_n")
    case True
    then have res: "ensure_category_diversity scored top_n = ?xs"
      by (simp add: ensure_category_diversity_def)
    have pos: "0 < cat_count c ?xs" using assms res by auto
    then have cin: "c \<in> ?C"
      by (auto simp: cat_count_def filter_empty_conv)
    have "(\<Sum>c\<in>?C. min (int (cat_count c ?xs)) ?cap) < (\<Sum>c\<in>?C. int (cat_count c ?xs))"
    proof (rule sum_strict_mono_ex1)
      show "finite ?C" by simp
      show "\<forall>x\<in>?C. min (int (cat_count x ?xs)) ?cap \<le> int (cat_count x ?xs)" by simp
      show "\<exists>a\<in>?C. min (int (cat_count a ?xs)) ?cap < int (cat_count a ?xs)"
        using cin assms res by (intro bexI [of _ c]) auto
    qed
    also have "\<dots> = int (length ?xs)"
      by (rule length_sum_cat_count [symmetric]) simp_all
    finally show ?thesis using True by (simp add: admissible_sum)
  next
    case False
    show ?thesis
    proof (cases "int (length ?sel) < top_n")
      case short: True
      have cnt: "int (cat_count c' ?sel) = min (int (cat_count c' ?xs)) ?cap" for c'
        using diversity_pass_exhausted [OF inv1 inv2 short, of c'] by simp
      have sub: "category ` set ?sel \<subseteq> ?C"
      proof
        fix c' assume "c' \<in> category ` set ?sel"
        then have "0 < cat_count c' ?sel"
          by (auto simp: cat_count_def filter_empty_conv)
        then have "0 < cat_count c' ?xs" using cnt [of c'] by auto
        then show "c' \<in> ?C" by (auto simp: cat_count_def filter_empty_conv)
      qed
      have "int (length ?sel) = (\<Sum>c\<in>?C. int (cat_count c ?sel))"
        by (rule length_sum_cat_count) (use sub in simp_all)
      also have "\<dots> = admissible_under_cap ?cap ?xs"
        by (simp add: admissible_sum cnt)
      finally show ?thesis using short by simp
    next
      case full: False
      then have res: "ensure_category_diversity scored top_n = ?sel"
        using False by (simp add: ensure_category_diversity_def Let_def)
      have le: "int (cat_count c ?sel) \<le> ?cap"
        by (rule diversity_pass_count_le [OF inv1 inv2])
      have "?cap < int (cat_count c ?sel)" using assms unfolding res .
      with le show ?thesis by linarith
    qed
  qed
qed

lemma cat_count_rank_items:
  "cat_count c (map fst (rank_items self now xs)) = cat_count c xs"
proof -
  have "cat_count c (map fst (rank_items self now xs))
        = length (filter (\<lambda>p. category (fst p) = c) (rank_items self now xs))"
    by (simp add: cat_count_def filter_map o_def)
  also have "\<dots> = length (filter (\<lambda>p. category (fst p) = c)
                        (map (\<lambda>item. (item, calculate_score self now item)) xs))"
    by (simp add: rank_items_def filter_sort)
  also have "\<dots> = cat_count c xs"
    by (simp add: cat_count_def filter_map o_def)
  finally show ?thesis .
qed

lemma set_rank_items: "set (map fst (rank_items self now xs)) = set xs"
  by (simp add: rank_items_def image_image)

lemma admissible_rank_items:
  "admissible_under_cap cap (map fst (rank_items self now xs)) = admissible_under_cap cap xs"
  unfolding admissible_sum set_rank_items cat_count_rank_items ..

text \<open>
  Claim C3. For an input with at least two categories and \<open>top_n \<ge> 4\<close>, a category
  contributes more than \<open>max(2, top_n // 2)\<close> items to the selection only under
  scarcity: whenever some category exceeds the cap in the result, fewer than \<open>top_n\<close> of
  the candidates (the items with an image) were admissible under the cap.
\<close>

theorem select_top_items_diversity:
  assumes "4 \<le> top_n"
    and "2 \<le> card (category ` set items)"
    and "max 2 (top_n div 2) < int (cat_count c (select_top_items self now items (Some top_n)))"
  shows "admissible_under_cap (max 2 (top_n div 2))
           (filter (\<lambda>item. truthy_opt_str (image_url item)) items) < top_n"
proof -
  let ?with = "filter (\<lambda>item. truthy_opt_str (image_url item)) items"
  have nz: "top_n \<noteq> 0" using assms(1) by simp
  have nonempty: "items \<noteq> [] \<and> ?with \<noteq> []"
  proof (rule ccontr)
    assume "\<not> ?thesis"
    then have "select_top_items self now items (Some top_n) = []"
      by (auto simp: select_top_items_def Let_def)
    then show False using assms(3) by simp
  qed
  then have res: "select_top_items self now items (Some top_n)
                  = ensure_category_diversity (rank_items self now ?with) top_n"
    using nz by (simp add: select_top_items_def Let_def)
  have "admissible_under_cap (max 2 (top_n div 2)) (map fst (rank_items self now ?with)) < top_n"
    by (rule ensure_category_diversity_scarcity [of _ c]) (use assms(3) res in simp)
  then show ?thesis by (simp only: admissible_rank_items)
qed

text \<open>
  Four items of one category and one of another, \<open>top_n = 4\<close>: the cap is 2, the first
  loop admits three items, the backfill adds a third item of the first category, and only
  three candidates were admissible under the cap.
\<close>

theorem select_top_items_diversity_witness:
  "(4::int) \<le> 4
   \<and> 2 \<le> card (category ` set example_batch)
   \<and> max 2 (4 div 2)
       < int (cat_count (cps ''tech'') (select_top_items example_selector 0 example_batch (Some 4)))
   \<and> admissible_under_cap (max 2 (4 div 2))
        (filter (\<lambda>item. truthy_opt_str (image_url item)) example_batch) < 4"
proof -
  have sel: "select_top_items example_selector 0 example_batch (Some 4)
             = [example_item ''a1'' ''tech'', example_item ''a2'' ''tech'',
                example_item ''b1'' ''world'', example_item ''a3'' ''tech'']"
    by code_simp
  have cats: "card (category ` set example_batch) = 2"
    by (simp add: example_batch_def example_item_def cps_def)
  have cnt: "cat_count (cps ''tech'') (select_top_items example_selector 0 example_batch (Some 4)) = 3"
    unfolding sel by (simp add: example_item_def cps_def)
  show ?thesis
    using select_top_items_diversity [of 4 example_batch "cps ''tech''" example_selector 0]
    by (simp add: cats cnt)
qed

text \<open>
  What holds of the selection for \<open>top_n \<ge> 1\<close>: at most \<open>top_n\<close> items, each with
  an image URL, and an empty selection for an empty input.
\<close>

lemma length_diversity_pass:
  "int (length sel) \<le> top_n \<Longrightarrow>
   int (length (diversity_pass top_n cap scored sel counts)) \<le> top_n"
  by (induction top_n cap scored sel counts rule: diversity_pass.induct) auto

lemma set_diversity_pass:
  "set (diversity_pass top_n cap scored sel counts) \<subseteq> set sel \<union> fst ` set scored"
proof (induction scored arbitrary: sel counts)
  case Nil
  then show ?case by simp
next
  case (Cons p rest)
  obtain item score where p: "p = (item, score)" by (cases p)
  have 1: "set (diversity_pass top_n cap rest sel counts) \<subseteq> set sel \<union> fst ` set rest"
    by (rule Cons.IH)
  have 2: "set (diversity_pass top_n cap rest (sel @ [item])
                  (counts(category item := counts (category item) + 1)))
           \<subseteq> set (sel @ [item]) \<union> fst ` set rest"
    by (rule Cons.IH)
  show ?case using 1 2 unfolding p by (auto simp del: fun_upd_apply)
qed

lemma length_backfill:
  "int (length sel) < top_n \<Longrightarrow> int (length (backfill top_n scored sel)) \<le> top_n"
  by (induction top_n scored sel rule: backfill.induct) (auto simp: Let_def)

lemma set_backfill: "set (backfill top_n scored sel) \<subseteq> set sel \<union> fst ` set scored"
  by (induction top_n scored sel rule: backfill.induct) (auto simp: Let_def)

lemma length_ensure_category_diversity:
  assumes "0 \<le> top_n"
  shows "int (length (ensure_category_diversity scored top_n)) \<le> top_n"
proof -
  have "int (length (diversity_pass top_n (max 2 (top_n div 2)) scored [] (\<lambda>c. 0))) \<le> top_n"
    by (rule length_diversity_pass) (use assms in simp)
  then show ?thesis
    by (auto simp: ensure_category_diversity_def Let_def length_backfill)
qed

lemma set_ensure_category_diversity:
  "set (ensure_category_diversity scored top_n) \<subseteq> fst ` set scored"
  using set_diversity_pass [of top_n "max 2 (top_n div 2)" scored "[]" "\<lambda>c. 0"]
        set_backfill [of top_n scored "diversity_pass top_n (max 2 (top_n div 2)) scored [] (\<lambda>c. 0)"]
  by (auto simp: ensure_category_diversity_def Let_def)

lemma select_top_items_bound:
  assumes "1 \<le> top_n"
  shows "int (length (select_top_items self now items (Some top_n))) \<le> top_n"
    and "list_all (\<lambda>item. truthy_opt_str (image_url item))
           (select_top_items self now items (Some top_n))"
    and "select_top_items self now [] (Some top_n) = []"
proof -
  show "int (length (select_top_items self now items (Some top_n))) \<le> top_n"
    using assms length_ensure_category_diversity [of top_n]
    by (auto simp: select_top_items_def Let_def)
  have "set (ensure_category_diversity (rank_items self now xs) top_n) \<subseteq> set xs" for xs
    using set_ensure_category_diversity [of "rank_items self now xs" top_n] set_rank_items [of self now xs]
    by auto
  then have "set (ensure_category_diversity
                    (rank_items self now (filter (\<lambda>item. truthy_opt_str (image_url item)) items))
                    top_n)
             \<subseteq> {item. truthy_opt_str (image_url item)}"
    by fastforce
  then show "list_all (\<lambda>item. truthy_opt_str (image_url item))
           (select_top_items self now items (Some top_n))"
    using assms by (auto simp: select_top_items_def Let_def list_all_iff)
  show "select_top_items self now [] (Some top_n) = []"
    by (simp add: select_top_items_def)
qed

text \<open>
  Claim C1 at \<open>top_n = 0\<close>. \<^verbatim>\<open>top_n or self.settings.top_n_items\<close> takes an explicit 0
  for a missing argument: with 5 configured, the call with \<open>top_n = 0\<close> returns the one
  candidate instead of the empty list.
\<close>

theorem select_top_items_zero_returns_item:
  "select_top_items example_selector 0 [example_item ''a1'' ''tech''] (Some 0)
   = [example_item ''a1'' ''tech'']"
  by (simp add: select_top_items_def example_selector_def example_item_def rank_items_def
        ensure_category_diversity_def cps_def)

section \<open>Validator: auxiliary facts\<close>

subsection \<open>The error combinator\<close>

lemma and_then_Inr [simp]: "and_then (Inr v) f = f v"
  by (simp add: and_then_def)

lemma and_then_Inl [simp]: "and_then (Inl e) f = Inl e"
  by (simp add: and_then_def)

lemma and_then_return [simp]: "and_then m Inr = m"
  by (cases m) simp_all

subsection \<open>Caption truncation\<close>

lemma rfind_append:
  assumes "c \<notin> set b"
  shows "rfind (a @ c # b) c = int (length a)"
proof -
  have "takeWhile (\<lambda>x. x \<noteq> c) (rev b @ c # rev a) = rev b"
    using assms by (subst takeWhile_append2) auto
  then show ?thesis by (simp add: rfind_def)
qed

lemma rfind_last:
  assumes "p < length s" and "s ! p = c" and "\<forall>q. p < q \<and> q < length s \<longrightarrow> s ! q \<noteq> c"
  shows "rfind s c = int p"
proof -
  have s: "s = take p s @ c # drop (Suc p) s"
    using assms(1,2) id_take_nth_drop by blast
  have "c \<notin> set (drop (Suc p) s)"
  proof
    assume "c \<in> set (drop (Suc p) s)"
    then obtain i where "i < length (drop (Suc p) s)" "drop (Suc p) s ! i = c"
      by (auto simp: in_set_conv_nth)
    then have "Suc p + i < length s" "s ! (Suc p + i) = c" by auto
    then show False using assms(3) by auto
  qed
  then have "rfind (take p s @ c # drop (Suc p) s) c = int (length (take p s))"
    by (rule rfind_append)
  then show ?thesis using s assms(1) by simp
qed

lemma rfind_found:
  assumes "0 \<le> rfind s c"
  shows "nat (rfind s c) < length s \<and> s ! nat (rfind s c) = c"
proof -
  have "c \<in> set s" using assms by (auto simp: rfind_def split: if_splits)
  then obtain a b where s: "s = a @ c # b" and "c \<notin> set b"
    by (meson split_list_last)
  then have "rfind s c = int (length a)" by (simp add: rfind_append)
  then show ?thesis using s by simp
qed

lemma truncate_caption_at_period:
  assumes "1400 < length s" and "1200 < p" and "p < 1400" and "s ! p = 46"
    and "\<forall>q. p < q \<and> q < 1400 \<longrightarrow> s ! q \<noteq> 46"
  shows "truncate_caption s = take (p + 1) s"
proof -
  have "rfind (take 1400 s) 46 = int p"
    by (rule rfind_last) (use assms in auto)
  moreover have "nat (int p + 1) = p + 1" by simp
  ultimately show ?thesis using assms(2,3)
    by (simp add: truncate_caption_def Let_def min_def del: of_nat_Suc)
qed

lemma truncate_caption_no_period:
  assumes "1400 < length s" and "\<forall>q. 1200 < q \<and> q < 1400 \<longrightarrow> s ! q \<noteq> 46"
  shows "truncate_caption s = take 1400 s"
proof -
  have "\<not> 1200 < rfind (take 1400 s) 46"
  proof
    assume gt: "1200 < rfind (take 1400 s) 46"
    then have "nat (rfind (take 1400 s) 46) < length (take 1400 s)
               \<and> take 1400 s ! nat (rfind (take 1400 s) 46) = 46"
      by (intro rfind_found) simp
    then show False using assms gt by auto
  qed
  then show ?thesis by (simp add: truncate_caption_def Let_def)
qed

lemma caption_policy_JStr:
  "caption_policy (JStr s) =
     (if 1400 < length s then Inr (Some (truncate_caption s))
      else if length s < 1200 then Inr None else Inr (Some s))"
  by (simp add: caption_policy_def and_then_def)

subsection \<open>Hashtags: the cap and the spaces\<close>

lemma normalize_hashtags_bound:
  assumes "normalize_hashtags v = Inr hs"
  shows "length hs \<le> 15" and "list_all (\<lambda>h. 32 \<notin> set h) hs"
proof -
  from assms obtain xs where hs: "hs = take 15 (map (\<lambda>h. remove_spaces (strip_chars [35] (strip h))) xs)"
    by (auto simp: normalize_hashtags_def and_then_def Let_def split: sum.splits)
  show "length hs \<le> 15" by (simp add: hs)
  have "list_all (\<lambda>h. 32 \<notin> set h) (map (\<lambda>h. remove_spaces (strip_chars [35] (strip h))) xs)"
    by (simp add: list_all_iff remove_spaces_def)
  then show "list_all (\<lambda>h. 32 \<notin> set h) hs"
    unfolding hs list_all_iff using set_take_subset by fast
qed

subsection \<open>One object of the schema\<close>

lemma clean_text_value_JStr: "clean_text_value (JStr s) = Inr (JStr (clean_text s))"
  by (simp add: clean_text_value_def clean_text_def)

lemma all_strings_map_JStr: "all_strings (map JStr ss) = Inr ss"
  by (induction ss) simp_all

lemma string_values: "list_all is_string_value xs \<Longrightarrow> \<exists>ss. xs = map JStr ss"
proof (induction xs)
  case Nil
  then show ?case by simp
next
  case (Cons x xs)
  then obtain ss where "xs = map JStr ss" by auto
  moreover obtain s where "x = JStr s" using Cons.prems by (cases x) auto
  ultimately have "x # xs = map JStr (s # ss)" by simp
  then show ?case by (rule exI)
qed

lemma normalize_hashtags_string_array:
  "list_all is_string_value xs \<Longrightarrow> \<exists>hs. normalize_hashtags (JArr xs) = Inr hs"
  by (auto simp: normalize_hashtags_def all_strings_map_JStr dest!: string_values)

lemma is_string_cases: "is_string v \<Longrightarrow> \<exists>s. v = Some (JStr s)"
  by (cases v rule: is_string.cases) auto

lemma is_string_array_cases:
  "is_string_array v \<Longrightarrow> \<exists>xs. v = Some (JArr xs) \<and> list_all is_string_value xs"
  by (cases v rule: is_string_array.cases) auto

lemma summary_rest_schema:
  assumes "matches_response_schema data"
  shows "\<exists>r. summary_rest data (JStr t) (JStr d) caption fid = Inr r
             \<and> sr_feed_item_id r = fid \<and> sr_description r = d \<and> sr_title r = t
             \<and> sr_caption r = format_caption_paragraphs caption"
proof -
  obtain kvs where data: "data = JObj kvs" using assms by (cases data) auto
  obtain xs where h: "map_of kvs (cps ''hashtags'') = Some (JArr xs)" "list_all is_string_value xs"
    using assms data by (auto dest: is_string_array_cases)
  obtain src where s: "map_of kvs (cps ''source'') = Some (JStr src)"
    using assms data by (auto dest: is_string_cases)
  obtain hs where n: "normalize_hashtags (JArr xs) = Inr hs"
    using normalize_hashtags_string_array [OF h(2)] by blast
  show ?thesis
    by (simp add: summary_rest_def data h s n clean_text_value_JStr Let_def)
qed

lemma summary_from_data_unfold:
  assumes "matches_response_schema data"
  shows "\<exists>tv. summary_from_data data original_title fid =
          and_then (caption_policy (JStr (cleaned_caption data))) (\<lambda>kept.
            case kept of None \<Rightarrow> Inr None
            | Some caption \<Rightarrow>
                and_then (summary_rest data (JStr tv)
                            (JStr (clean_text (string_field data ''description''))) caption fid)
                  (\<lambda>r. Inr (Some r)))"
proof -
  obtain kvs where data: "data = JObj kvs" using assms by (cases data) auto
  obtain t where t: "map_of kvs (cps ''title'') = Some (JStr t)"
    using assms data by (auto dest: is_string_cases)
  obtain d where d: "map_of kvs (cps ''description'') = Some (JStr d)"
    using assms data by (auto dest: is_string_cases)
  obtain c where c: "map_of kvs (cps ''caption'') = Some (JStr c)"
    using assms data by (auto dest: is_string_cases)
  obtain tv where tv: "(if length original_title \<le> 65 then Inr (JStr (take 65 original_title))
               else slice_65 (JStr (clean_text t))) = Inr (JStr tv)"
    by (cases "length original_title \<le> 65") auto
  have cc: "cleaned_caption (JObj kvs) = clean_text c"
    by (simp add: cleaned_caption_def c)
  have sf: "string_field (JObj kvs) ''description'' = d"
    by (simp add: d)
  have "summary_from_data (JObj kvs) original_title fid =
          and_then (caption_policy (JStr (clean_text c))) (\<lambda>kept.
            case kept of None \<Rightarrow> Inr None
            | Some caption \<Rightarrow>
                and_then (summary_rest (JObj kvs) (JStr tv) (JStr (clean_text d)) caption fid)
                  (\<lambda>r. Inr (Some r)))"
    unfolding summary_from_data_def
    by (simp add: t d c clean_text_value_JStr tv del: slice_65.simps)
  then show ?thesis unfolding data cc sf by (rule exI)
qed


lemma summary_from_data_long:
  assumes "matches_response_schema data" and "1200 \<le> length (cleaned_caption data)"
  shows "\<exists>r. summary_from_data data original_title fid = Inr (Some r)
             \<and> sr_feed_item_id r = fid
             \<and> sr_description r = clean_text (string_field data ''description'')
             \<and> sr_caption r = format_caption_paragraphs
                   (if 1400 < length (cleaned_caption data)
                    then truncate_caption (cleaned_caption data) else cleaned_caption data)"
proof -
  let ?kept = "if 1400 < length (cleaned_caption data)
               then truncate_caption (cleaned_caption data) else cleaned_caption data"
  obtain tv where u: "summary_from_data data original_title fid =
          and_then (caption_policy (JStr (cleaned_caption data))) (\<lambda>kept.
            case kept of None \<Rightarrow> Inr None
            | Some caption \<Rightarrow>
                and_then (summary_rest data (JStr tv)
                            (JStr (clean_text (string_field data ''description''))) caption fid)
                  (\<lambda>r. Inr (Some r)))"
    using summary_from_data_unfold [OF assms(1), of original_title fid] by blast
  have k: "caption_policy (JStr (cleaned_caption data)) = Inr (Some ?kept)"
    using assms(2) by (simp add: caption_policy_JStr)
  obtain r where "summary_rest data (JStr tv)
                    (JStr (clean_text (string_field data ''description''))) ?kept fid = Inr r"
      "sr_feed_item_id r = fid" "sr_description r = clean_text (string_field data ''description'')"
      "sr_caption r = format_caption_paragraphs ?kept"
    using summary_rest_schema [OF assms(1)] by blast
  then show ?thesis unfolding u k by simp
qed

subsection \<open>The loop over the batch\<close>

lemma parse_batch_items_in_policy:
  assumes "list_all (\<lambda>p. matches_response_schema (fst p) \<and> 1200 \<le> length (cleaned_caption (fst p))) pairs"
  shows "\<exists>rs. parse_batch_items pairs = Inr rs
             \<and> map sr_feed_item_id rs = map (\<lambda>p. item_id (snd p)) pairs
             \<and> map sr_description rs
                 = map (\<lambda>p. clean_text (string_field (fst p) ''description'')) pairs"
  using assms
proof (induction pairs)
  case Nil
  then show ?case by simp
next
  case (Cons p pairs)
  obtain data item where p: "p = (data, item)" by (cases p)
  obtain rs where rs: "parse_batch_items pairs = Inr rs"
      "map sr_feed_item_id rs = map (\<lambda>p. item_id (snd p)) pairs"
      "map sr_description rs = map (\<lambda>p. clean_text (string_field (fst p) ''description'')) pairs"
    using Cons by auto
  obtain r where r: "summary_from_data data (title item) (item_id item) = Inr (Some r)"
      "sr_feed_item_id r = item_id item"
      "sr_description r = clean_text (string_field data ''description'')"
    using summary_from_data_long [of data "title item" "item_id item"] Cons.prems p by auto
  have "parse_batch_items (p # pairs) = Inr (r # rs)"
    by (simp add: p r rs)
  then show ?case using r rs p by simp
qed





lemma length_parse_batch_items:
  "parse_batch_items pairs = Inr rs \<Longrightarrow> length rs \<le> length pairs"
proof (induction pairs arbitrary: rs)
  case Nil
  then show ?case by simp
next
  case (Cons p pairs)
  obtain data item where p: "p = (data, item)" by (cases p)
  from Cons.prems obtain r rs' where
    "parse_batch_items pairs = Inr rs'" "rs = (case r of None \<Rightarrow> rs' | Some s \<Rightarrow> s # rs')"
    by (auto simp: p and_then_def split: sum.splits)
  then show ?case using Cons.IH [of rs'] by (auto split: option.splits)
qed

lemma parse_batch_response_decoded:
  assumes "extract_json 91 93 response_text = Some json_str"
    and "json_loads json_str = Some (JArr data_array)"
  shows "parse_batch_response json_loads response_text items =
           (case parse_batch_items (zip data_array items) of
              Inl e \<Rightarrow> None | Inr results \<Rightarrow> Some results)"
  by (simp add: parse_batch_response_def assms)

lemma list_all_zip_fst:
  "list_all P xs \<Longrightarrow> list_all (\<lambda>p. P (fst p)) (zip xs ys)"
  by (induction xs arbitrary: ys) (auto simp: zip_Cons1 split: list.splits)



subsection \<open>A bare JSON array is found by the second search\<close>

lemma fenced_at_no_fence: "96 \<notin> set s \<Longrightarrow> fenced_at opening closing s = None"
  by (cases s) (auto simp: fenced_at_def cps_def)

lemma search_fenced_no_fence: "96 \<notin> set s \<Longrightarrow> search_fenced opening closing s = None"
  by (induction s) (simp_all add: fenced_at_no_fence del: set_simps, auto)

lemma search_raw_bare:
  "search_raw opening closing (opening # body @ [closing]) = Some (opening # body @ [closing])"
proof -
  have "rfind (body @ [closing]) closing = int (length body)"
    using rfind_append [of closing "[]" body] by simp
  then show ?thesis by (simp add: search_raw_def)
qed

lemma extract_json_bare:
  assumes "96 \<notin> set body" and "opening \<noteq> 96" and "closing \<noteq> 96"
  shows "extract_json opening closing (opening # body @ [closing]) = Some (opening # body @ [closing])"
proof -
  have "96 \<notin> set (opening # body @ [closing])" using assms by auto
  then have "search_fenced opening closing (opening # body @ [closing]) = None"
    by (rule search_fenced_no_fence)
  then show ?thesis by (simp add: extract_json_def search_raw_bare del: search_fenced.simps)
qed

subsection \<open>A JSON array between other text\<close>

lemma search_fenced_skip:
  "96 \<notin> set pre \<Longrightarrow> search_fenced opening closing (pre @ s) = search_fenced opening closing s"
proof (induction pre)
  case Nil
  then show ?case by simp
next
  case (Cons c pre)
  have "fenced_at opening closing (c # pre @ s) = None"
    using Cons.prems by (auto simp: fenced_at_def cps_def)
  then show ?case using Cons by simp
qed



subsection \<open>The example responses\<close>

lemma remove_prefix_x:
  "p \<in> set prefixes_to_remove \<Longrightarrow> remove_prefix p (120 # cs) = 120 # cs"
  by (auto simp: prefixes_to_remove_def remove_prefix_def cps_def matches_ignorecase_def
        ascii_lower_def)

lemma remove_prefixes_x:
  "foldl (\<lambda>cleaned prefix_pattern. remove_prefix prefix_pattern cleaned) (120 # cs) prefixes_to_remove
   = 120 # cs"
proof -
  have "set ps \<subseteq> set prefixes_to_remove \<Longrightarrow>
        foldl (\<lambda>cleaned prefix_pattern. remove_prefix prefix_pattern cleaned) (120 # cs) ps = 120 # cs"
    for ps
    by (induction ps) (simp_all add: remove_prefix_x)
  then show ?thesis by simp
qed

lemma collapse_whitespace_Cons:
  "\<not> isspace c \<Longrightarrow> collapse_whitespace (c # cs) = c # collapse_whitespace cs"
  by (cases cs) simp_all

lemma collapse_whitespace_replicate:
  "\<not> isspace c \<Longrightarrow> collapse_whitespace (replicate n c @ cs) = replicate n c @ collapse_whitespace cs"
  by (induction n) (simp_all add: collapse_whitespace_Cons)

lemma not_isspace_x: "\<not> isspace 120" and not_isspace_period: "\<not> isspace 46"
  and isspace_space: "isspace 32"
  by (simp_all add: isspace_def)

lemma not_emoji_ascii: "c < 128 \<Longrightarrow> \<not> emoji_pattern c"
  by (simp add: emoji_pattern_def)

lemma strip_plain:
  assumes "s \<noteq> []" and "\<not> isspace (hd s)" and "\<not> isspace (last s)"
  shows "strip s = s"
proof -
  have 1: "dropWhile isspace s = s" using assms(1,2) by (cases s) simp_all
  have 2: "dropWhile isspace (rev s) = rev s"
    using assms(1,3) by (cases "rev s") (simp_all add: last_rev [symmetric] del: last_rev)
  show ?thesis by (simp add: strip_def 1 2)
qed

lemma clean_text_example_caption:
  "0 < n \<Longrightarrow> clean_text (example_caption n) = example_caption n"
proof -
  assume "0 < n"
  then obtain m where n: "n = Suc m" by (cases n) auto
  have c: "collapse_whitespace (replicate n 120) = replicate n 120"
    using collapse_whitespace_replicate [of 120 n "[]"] by (simp add: not_isspace_x)
  have s: "strip (replicate n 120) = replicate n 120"
    by (rule strip_plain) (simp_all add: n not_isspace_x)
  have f: "filter (\<lambda>c. \<not> emoji_pattern c) (replicate n 120) = replicate n 120"
    by (simp add: not_emoji_ascii)
  have p: "foldl (\<lambda>cleaned prefix_pattern. remove_prefix prefix_pattern cleaned)
             (replicate n 120) prefixes_to_remove = replicate n 120"
    using remove_prefixes_x [of "replicate m 120"] by (simp add: n)
  show ?thesis
    unfolding clean_text_def example_caption_def Let_def p f c s by (simp add: n)
qed


lemma collapse_whitespace_plain:
  "list_all (\<lambda>c. \<not> isspace c) s \<Longrightarrow> collapse_whitespace s = s"
  by (induction s) (simp_all add: collapse_whitespace_Cons)

lemma clean_text_plain:
  assumes "list_all (\<lambda>c. \<not> isspace c \<and> c < 128) s"
  shows "clean_text (120 # s) = 120 # s"
proof -
  have ns: "list_all (\<lambda>c. \<not> isspace c) (120 # s)"
    using assms by (simp add: list_all_iff not_isspace_x)
  have c: "collapse_whitespace (120 # s) = 120 # s"
    using ns by (rule collapse_whitespace_plain)
  have "\<not> isspace (last (120 # s))"
    using ns by (metis last_in_set list.distinct(1) list_all_iff)
  then have st: "strip (120 # s) = 120 # s"
    by (intro strip_plain) (simp_all add: not_isspace_x)
  have f: "filter (\<lambda>c. \<not> emoji_pattern c) (120 # s) = 120 # s"
    using assms by (auto simp: list_all_iff not_emoji_ascii filter_id_conv)
  show ?thesis
    unfolding clean_text_def Let_def remove_prefixes_x f c st by simp
qed

lemma clean_text_example_caption_period_1250:
  "clean_text example_caption_period_1250 = example_caption_period_1250"
proof -
  have "example_caption_period_1250 = 120 # (replicate 1249 120 @ [46] @ replicate 249 120)"
    by (simp add: example_caption_period_1250_def replicate_Suc [symmetric] del: replicate_Suc)
  moreover have "clean_text (120 # (replicate 1249 120 @ [46] @ replicate 249 120))
                 = 120 # (replicate 1249 120 @ [46] @ replicate 249 120)"
    by (rule clean_text_plain) (simp add: list_all_iff not_isspace_x not_isspace_period)
  ultimately show ?thesis by simp
qed

lemma clean_text_example_caption_period_1200:
  "clean_text example_caption_period_1200 = example_caption_period_1200"
proof -
  have "example_caption_period_1200 = 120 # (replicate 1199 120 @ [46] @ replicate 299 120)"
    by (simp add: example_caption_period_1200_def replicate_Suc [symmetric] del: replicate_Suc)
  moreover have "clean_text (120 # (replicate 1199 120 @ [46] @ replicate 299 120))
                 = 120 # (replicate 1199 120 @ [46] @ replicate 299 120)"
    by (rule clean_text_plain) (simp add: list_all_iff not_isspace_x not_isspace_period)
  ultimately show ?thesis by simp
qed

lemma matches_response_schema_example: "matches_response_schema (example_object caption)"
  by (simp add: example_object_def cps_def)

lemma cleaned_caption_example: "cleaned_caption (example_object caption) = clean_text caption"
  by (simp add: cleaned_caption_def example_object_def cps_def)

lemma in_policy_example:
  "1200 \<le> n \<Longrightarrow> n \<le> 1400 \<Longrightarrow> in_policy (example_object (example_caption n))"
  by (simp add: in_policy_def matches_response_schema_example cleaned_caption_example
        clean_text_example_caption) (simp add: example_caption_def)


lemma set_join: "set (join sep parts) \<subseteq> set sep \<union> (\<Union>p\<in>set parts. set p)"
  by (induction sep parts rule: join.induct) auto

lemma no_fence_example_object_text:
  "96 \<notin> set caption \<Longrightarrow> 96 \<notin> set (example_object_text caption)"
  by (simp add: example_object_text_def cps_def)

lemma extract_json_example:
  assumes "list_all (\<lambda>caption. 96 \<notin> set caption) captions"
  shows "extract_json 91 93 (example_response_text captions) = Some (example_response_text captions)"
proof -
  have "96 \<notin> (\<Union>p\<in>set (map example_object_text captions). set p)"
    using assms by (auto simp: list_all_iff dest: no_fence_example_object_text)
  then have "96 \<notin> set (join [44] (map example_object_text captions))"
    using set_join [of "[44]" "map example_object_text captions"] by auto
  then show ?thesis
    unfolding example_response_text_def
    using extract_json_bare [of "join [44] (map example_object_text captions)" 91 93] by simp
qed

lemma example_json_loads_text:
  "example_json_loads captions (example_response_text captions)
   = Some (JArr (map example_object captions))"
  by (simp add: example_json_loads_def)

lemma no_fence_example_caption: "96 \<notin> set (example_caption n)"
  by (simp add: example_caption_def)



lemma parse_batch_items_example:
  assumes "list_all (\<lambda>n. 1200 \<le> n \<and> n \<le> 1400) ns" and "length ns \<le> length items"
  shows "\<exists>results. parse_batch_items (zip (map (\<lambda>n. example_object (example_caption n)) ns) items)
                       = Inr results
                   \<and> length results = length ns"
proof -
  let ?ds = "map (\<lambda>n. example_object (example_caption n)) ns"
  have "list_all (\<lambda>data. matches_response_schema data \<and> 1200 \<le> length (cleaned_caption data)) ?ds"
    using assms(1) in_policy_example by (auto simp: list_all_iff in_policy_def)
  then have "list_all (\<lambda>p. matches_response_schema (fst p)
                          \<and> 1200 \<le> length (cleaned_caption (fst p))) (zip ?ds items)"
    by (rule list_all_zip_fst)
  then obtain rs where rs: "parse_batch_items (zip ?ds items) = Inr rs"
      "map sr_feed_item_id rs = map (\<lambda>p. item_id (snd p)) (zip ?ds items)"
    using parse_batch_items_in_policy by blast
  have "length rs = length (zip ?ds items)" using rs(2) by (metis length_map)
  then have "length rs = length ns" using assms(2) by simp
  with rs(1) show ?thesis by blast
qed








subsection \<open>An object whose description is null\<close>




subsection \<open>A fenced block inside a caption\<close>

lemma clean_text_example_caption_fenced:
  "clean_text example_caption_fenced = example_caption_fenced"
proof -
  have "example_caption_fenced
        = 120 # (replicate 599 120 @ cps ''```[x]```'' @ replicate 600 120)"
    by (simp add: example_caption_fenced_def replicate_Suc [symmetric] del: replicate_Suc)
  moreover have "clean_text (120 # (replicate 599 120 @ cps ''```[x]```'' @ replicate 600 120))
                 = 120 # (replicate 599 120 @ cps ''```[x]```'' @ replicate 600 120)"
    by (rule clean_text_plain) (auto simp: list_all_iff cps_def isspace_def)
  ultimately show ?thesis by simp
qed

lemma in_policy_example_caption_fenced: "in_policy (example_object example_caption_fenced)"
  by (simp add: in_policy_def matches_response_schema_example cleaned_caption_example
        clean_text_example_caption_fenced) (simp add: example_caption_fenced_def cps_def)

lemma extract_json_example_fenced:
  "extract_json 91 93 (example_response_text [example_caption_fenced]) = Some (cps ''[x]'')"
proof -
  let ?before = "[91] @ [123] @ [34] @ cps ''title'' @ [34, 58, 34] @ cps ''Generated title''
     @ [34, 44] @ [34] @ cps ''description'' @ [34, 58, 34] @ replicate 200 120 @ [34, 44]
     @ [34] @ cps ''caption'' @ [34, 58, 34] @ replicate 600 120"
  obtain after where t: "example_response_text [example_caption_fenced]
                         = ?before @ (cps ''```[x]```'' @ after)"
    by (simp add: example_response_text_def example_object_text_def example_caption_fenced_def)
  have "96 \<notin> set ?before" by (simp add: cps_def)
  then have "search_fenced 91 93 (?before @ (cps ''```[x]```'' @ after))
             = search_fenced 91 93 (cps ''```[x]```'' @ after)"
    by (rule search_fenced_skip)
  also have "\<dots> = Some (cps ''[x]'')"
    by (simp add: cps_def fenced_at_def isspace_def)
  finally show ?thesis by (simp add: extract_json_def t)
qed

text \<open>
  Why the round trip asks for a response text without a backtick: the fenced search runs
  first and over the whole text. A caption of 1209 characters that contains
  \<^verbatim>\<open>```[x]```\<close> is in policy, yet the fenced search takes \<^verbatim>\<open>[x]\<close> for the array,
  \<^verbatim>\<open>json.loads\<close> fails on it and the parser returns \<^verbatim>\<open>None\<close>.
\<close>

lemma parse_batch_response_fenced_caption:
  "in_policy (example_object example_caption_fenced)
   \<and> example_json_loads [example_caption_fenced] (example_response_text [example_caption_fenced])
       = Some (JArr [example_object example_caption_fenced])
   \<and> extract_json 91 93 (example_response_text [example_caption_fenced]) = Some (cps ''[x]'')
   \<and> parse_batch_response (example_json_loads [example_caption_fenced])
         (example_response_text [example_caption_fenced]) (take 1 example_items) = None"
proof -
  have "example_json_loads [example_caption_fenced] (cps ''[x]'') = None"
    by (simp add: example_json_loads_def example_response_text_def example_object_text_def
          cps_def)
  then have "parse_batch_response (example_json_loads [example_caption_fenced])
         (example_response_text [example_caption_fenced]) (take 1 example_items) = None"
    by (simp add: parse_batch_response_def extract_json_example_fenced)
  then show ?thesis
    by (simp add: in_policy_example_caption_fenced example_json_loads_text
          extract_json_example_fenced)
qed


section \<open>Validator: properties\<close>

text \<open>
  Claim C2, as the code has it. A cleaned caption of more than 1400 characters is cut to
  its first 1400 characters; when the last period among them is at an offset \<open>p\<close>
  strictly after 1200, the caption ends at that period, \<open>p + 1\<close> characters long; when
  there is no period strictly after offset 1200, it keeps the 1400 characters. The
  summary of an object of the schema carries that caption, reflowed into paragraphs.
\<close>

theorem caption_truncation:
  assumes "1400 < length caption"
  shows "caption_policy (JStr caption) = Inr (Some (truncate_caption caption))
     \<and> (\<forall>p. 1200 < p \<and> p < 1400 \<and> caption ! p = 46
              \<and> (\<forall>q. p < q \<and> q < 1400 \<longrightarrow> caption ! q \<noteq> 46)
            \<longrightarrow> truncate_caption caption = take (p + 1) caption)
     \<and> ((\<forall>q. 1200 < q \<and> q < 1400 \<longrightarrow> caption ! q \<noteq> 46)
            \<longrightarrow> truncate_caption caption = take 1400 caption)
     \<and> (matches_response_schema data \<and> cleaned_caption data = caption
            \<longrightarrow> (\<exists>r. summary_from_data data original_title feed_item_id = Inr (Some r)
                    \<and> sr_caption r = format_caption_paragraphs (truncate_caption caption)))"
proof (intro conjI allI impI)
  show "caption_policy (JStr caption) = Inr (Some (truncate_caption caption))"
    using assms by (simp add: caption_policy_JStr)
next
  fix p
  assume "1200 < p \<and> p < 1400 \<and> caption ! p = 46
          \<and> (\<forall>q. p < q \<and> q < 1400 \<longrightarrow> caption ! q \<noteq> 46)"
  then show "truncate_caption caption = take (p + 1) caption"
    using assms by (intro truncate_caption_at_period) simp_all
next
  assume "\<forall>q. 1200 < q \<and> q < 1400 \<longrightarrow> caption ! q \<noteq> 46"
  then show "truncate_caption caption = take 1400 caption"
    using assms by (intro truncate_caption_no_period) simp_all
next
  assume a: "matches_response_schema data \<and> cleaned_caption data = caption"
  then have "1200 \<le> length (cleaned_caption data)" using assms by simp
  then obtain r where "summary_from_data data original_title feed_item_id = Inr (Some r)"
      "sr_caption r = format_caption_paragraphs
                        (if 1400 < length (cleaned_caption data)
                         then truncate_caption (cleaned_caption data) else cleaned_caption data)"
    using summary_from_data_long [of data original_title feed_item_id] a by blast
  then show "\<exists>r. summary_from_data data original_title feed_item_id = Inr (Some r)
                 \<and> sr_caption r = format_caption_paragraphs (truncate_caption caption)"
    using a assms by auto
qed

text \<open>
  A caption of 1500 characters whose only period is at offset 1250 ends at offset 1251,
  also in the summary of the object that carries it, and one of 1500 characters without
  a period keeps its first 1400.
\<close>

theorem caption_truncation_witness:
  "1400 < length example_caption_period_1250
   \<and> example_caption_period_1250 ! 1250 = 46
   \<and> truncate_caption example_caption_period_1250 = take 1251 example_caption_period_1250
   \<and> 1400 < length (example_caption 1500)
   \<and> truncate_caption (example_caption 1500) = take 1400 (example_caption 1500)
   \<and> matches_response_schema (example_object example_caption_period_1250)
   \<and> cleaned_caption (example_object example_caption_period_1250) = example_caption_period_1250
   \<and> (\<exists>r. summary_from_data (example_object example_caption_period_1250)
               (cps ''a1'') (cps ''a1'') = Inr (Some r)
           \<and> sr_caption r
               = format_caption_paragraphs (take 1251 example_caption_period_1250))"
proof -
  have len: "1400 < length example_caption_period_1250"
    by (simp add: example_caption_period_1250_def)
  have at: "example_caption_period_1250 ! 1250 = 46"
    by (simp add: example_caption_period_1250_def nth_append)
  have after: "\<forall>q. 1250 < q \<and> q < 1400 \<longrightarrow> example_caption_period_1250 ! q \<noteq> 46"
    by (auto simp: example_caption_period_1250_def nth_append)
  have len2: "1400 < length (example_caption 1500)"
    by (simp add: example_caption_def)
  have none: "\<forall>q. 1200 < q \<and> q < 1400 \<longrightarrow> example_caption 1500 ! q \<noteq> 46"
    by (simp add: example_caption_def)
  have p: "(1200::nat) < 1250 \<and> (1250::nat) < 1400" by simp
  have schema: "matches_response_schema (example_object example_caption_period_1250)"
    by (rule matches_response_schema_example)
  have cleaned: "cleaned_caption (example_object example_caption_period_1250)
                 = example_caption_period_1250"
    by (simp add: cleaned_caption_example clean_text_example_caption_period_1250)
  note inst = caption_truncation
               [OF len, of "example_object example_caption_period_1250" "cps ''a1''" "cps ''a1''"]
  have "truncate_caption example_caption_period_1250
        = take (1250 + 1) example_caption_period_1250"
    using inst at after p by blast
  then have one: "truncate_caption example_caption_period_1250
                  = take 1251 example_caption_period_1250"
    by (simp only: numeral_plus_one semiring_norm)
  have "\<exists>r. summary_from_data (example_object example_caption_period_1250)
               (cps ''a1'') (cps ''a1'') = Inr (Some r)
           \<and> sr_caption r
               = format_caption_paragraphs (truncate_caption example_caption_period_1250)"
    using inst schema cleaned by blast
  then have obj: "\<exists>r. summary_from_data (example_object example_caption_period_1250)
               (cps ''a1'') (cps ''a1'') = Inr (Some r)
           \<and> sr_caption r
               = format_caption_paragraphs (take 1251 example_caption_period_1250)"
    unfolding one .
  have two: "truncate_caption (example_caption 1500) = take 1400 (example_caption 1500)"
    using caption_truncation [OF len2] none by blast
  from len at one len2 two schema cleaned obj show ?thesis by blast
qed

text \<open>
  Claim C2 as stated fails for a period at offset 1200 exactly: the test is
  \<^verbatim>\<open>last_period > 1200\<close>, so a caption of 1500 characters whose only period is at
  offset 1200 keeps its first 1400 characters and does not end at offset 1201.
\<close>

theorem caption_truncation_period_at_1200:
  "length example_caption_period_1200 = 1500
   \<and> example_caption_period_1200 ! 1200 = 46
   \<and> clean_text example_caption_period_1200 = example_caption_period_1200
   \<and> caption_policy (JStr example_caption_period_1200)
       = Inr (Some (take 1400 example_caption_period_1200))
   \<and> take 1400 example_caption_period_1200 \<noteq> take 1201 example_caption_period_1200"
proof -
  have len: "length example_caption_period_1200 = 1500"
    by (simp add: example_caption_period_1200_def)
  have at: "example_caption_period_1200 ! 1200 = 46"
    by (simp add: example_caption_period_1200_def nth_append)
  have none: "\<forall>q. 1200 < q \<and> q < 1400 \<longrightarrow> example_caption_period_1200 ! q \<noteq> 46"
    by (auto simp: example_caption_period_1200_def nth_append)
  have t: "truncate_caption example_caption_period_1200 = take 1400 example_caption_period_1200"
    by (rule truncate_caption_no_period) (simp_all add: len none)
  have c: "caption_policy (JStr example_caption_period_1200)
           = Inr (Some (take 1400 example_caption_period_1200))"
    by (simp add: caption_policy_JStr len t)
  have "length (take 1400 example_caption_period_1200)
        \<noteq> length (take 1201 example_caption_period_1200)"
    by (simp add: len)
  then have ne: "take 1400 example_caption_period_1200 \<noteq> take 1201 example_caption_period_1200"
    by metis
  from len at clean_text_example_caption_period_1200 c ne show ?thesis by blast
qed







text \<open>
  Claim C10. The batch parser never returns more results than there are items. When the
  decoded array holds more objects than there are items, the objects beyond the last item
  take no part in the result; when it holds fewer, only that many items are paired. A
  difference in length raises nothing by itself.
\<close>

theorem parse_batch_response_length_mismatch:
  "(\<forall>results. parse_batch_response json_loads response_text items = Some results
       \<longrightarrow> length results \<le> length items)
   \<and> (extract_json 91 93 response_text = Some json_str
        \<and> json_loads json_str = Some (JArr (data_array @ extra))
        \<and> length data_array = length items
      \<longrightarrow> parse_batch_response json_loads response_text items
          = (case parse_batch_items (zip data_array items) of
               Inl e \<Rightarrow> None | Inr results \<Rightarrow> Some results))
   \<and> (extract_json 91 93 response_text = Some json_str
        \<and> json_loads json_str = Some (JArr data_array)
        \<and> length data_array \<le> length items
      \<longrightarrow> parse_batch_response json_loads response_text items
          = (case parse_batch_items (zip data_array (take (length data_array) items)) of
               Inl e \<Rightarrow> None | Inr results \<Rightarrow> Some results))"
proof (intro conjI allI impI)
  fix results
  assume r: "parse_batch_response json_loads response_text items = Some results"
  then obtain json_str data_array where
    "parse_batch_items (zip data_array items) = Inr results"
    by (auto simp: parse_batch_response_def split: option.splits json.splits sum.splits)
  then have "length results \<le> length (zip data_array items)"
    by (rule length_parse_batch_items)
  then show "length results \<le> length items" by simp
next
  assume a: "extract_json 91 93 response_text = Some json_str
        \<and> json_loads json_str = Some (JArr (data_array @ extra))
        \<and> length data_array = length items"
  then have "zip (data_array @ extra) items = zip data_array items"
    by (simp add: zip_append1)
  then show "parse_batch_response json_loads response_text items
          = (case parse_batch_items (zip data_array items) of
               Inl e \<Rightarrow> None | Inr results \<Rightarrow> Some results)"
    using parse_batch_response_decoded
            [of response_text json_str json_loads "data_array @ extra" items] a
    by simp
next
  assume a: "extract_json 91 93 response_text = Some json_str
        \<and> json_loads json_str = Some (JArr data_array)
        \<and> length data_array \<le> length items"
  have "zip data_array items = zip data_array (take (length data_array) items)"
    by (induction data_array arbitrary: items) (auto simp: zip_Cons1 split: list.splits)
  then show "parse_batch_response json_loads response_text items
          = (case parse_batch_items (zip data_array (take (length data_array) items)) of
               Inl e \<Rightarrow> None | Inr results \<Rightarrow> Some results)"
    using parse_batch_response_decoded
            [of response_text json_str json_loads data_array items] a
    by simp
qed

text \<open>
  An array of three objects against two items, and an array of one object against two.
\<close>

theorem parse_batch_response_length_mismatch_witness:
  "extract_json 91 93
     (example_response_text [example_caption 1300, example_caption 1250, example_caption 1300])
     = Some (example_response_text [example_caption 1300, example_caption 1250, example_caption 1300])
   \<and> example_json_loads [example_caption 1300, example_caption 1250, example_caption 1300]
         (example_response_text [example_caption 1300, example_caption 1250, example_caption 1300])
       = Some (JArr ([example_object (example_caption 1300), example_object (example_caption 1250)]
                     @ [example_object (example_caption 1300)]))
   \<and> parse_batch_response
         (example_json_loads [example_caption 1300, example_caption 1250, example_caption 1300])
         (example_response_text [example_caption 1300, example_caption 1250, example_caption 1300])
         (take 2 example_items)
       = (case parse_batch_items
                 (zip [example_object (example_caption 1300), example_object (example_caption 1250)]
                      (take 2 example_items)) of
            Inl e \<Rightarrow> None | Inr results \<Rightarrow> Some results)
   \<and> (\<exists>results.
         parse_batch_response
           (example_json_loads [example_caption 1300, example_caption 1250, example_caption 1300])
           (example_response_text [example_caption 1300, example_caption 1250, example_caption 1300])
           (take 2 example_items) = Some results
         \<and> length results \<le> length (take 2 example_items))
   \<and> extract_json 91 93 (example_response_text [example_caption 1300])
       = Some (example_response_text [example_caption 1300])
   \<and> example_json_loads [example_caption 1300] (example_response_text [example_caption 1300])
       = Some (JArr [example_object (example_caption 1300)])
   \<and> parse_batch_response (example_json_loads [example_caption 1300])
         (example_response_text [example_caption 1300]) (take 2 example_items)
       = (case parse_batch_items
                 (zip [example_object (example_caption 1300)]
                      (take (length [example_object (example_caption 1300)]) (take 2 example_items))) of
            Inl e \<Rightarrow> None | Inr results \<Rightarrow> Some results)"
proof -
  let ?caps3 = "[example_caption 1300, example_caption 1250, example_caption 1300]"
  let ?T3 = "example_response_text ?caps3"
  let ?L3 = "example_json_loads ?caps3"
  let ?ds = "[example_object (example_caption 1300), example_object (example_caption 1250)]"
  let ?extra = "[example_object (example_caption 1300)]"
  let ?items = "take 2 example_items"
  let ?T1 = "example_response_text [example_caption 1300]"
  let ?L1 = "example_json_loads [example_caption 1300]"
  have e3: "extract_json 91 93 ?T3 = Some ?T3"
    by (rule extract_json_example) (simp add: no_fence_example_caption)
  have l3: "?L3 ?T3 = Some (JArr (?ds @ ?extra))"
    by (simp add: example_json_loads_text)
  have n3: "length ?ds = length ?items"
    by (simp add: example_items_def)
  have e1: "extract_json 91 93 ?T1 = Some ?T1"
    by (rule extract_json_example) (simp add: no_fence_example_caption)
  have l1: "?L1 ?T1 = Some (JArr [example_object (example_caption 1300)])"
    by (simp add: example_json_loads_text)
  have n1: "length [example_object (example_caption 1300)] \<le> length ?items"
    by (simp add: example_items_def)
  note thm3 = parse_batch_response_length_mismatch [of ?L3 ?T3 ?items ?T3 ?ds ?extra]
  note thm1 = parse_batch_response_length_mismatch
                [of ?L1 ?T1 ?items ?T1 "[example_object (example_caption 1300)]" "[]"]
  have eq3: "parse_batch_response ?L3 ?T3 ?items
             = (case parse_batch_items (zip ?ds ?items) of
                  Inl e \<Rightarrow> None | Inr results \<Rightarrow> Some results)"
    using thm3 e3 l3 n3 by blast
  obtain rs where "parse_batch_items (zip ?ds ?items) = Inr rs"
    using parse_batch_items_example [of "[1300, 1250]" ?items] by (auto simp: example_items_def)
  then have some: "parse_batch_response ?L3 ?T3 ?items = Some rs"
    unfolding eq3 by simp
  then have "length rs \<le> length ?items"
    using thm3 by blast
  with some have ex: "\<exists>results. parse_batch_response ?L3 ?T3 ?items = Some results
                        \<and> length results \<le> length ?items"
    by blast
  have eq1: "parse_batch_response ?L1 ?T1 ?items
             = (case parse_batch_items
                       (zip [example_object (example_caption 1300)]
                            (take (length [example_object (example_caption 1300)]) ?items)) of
                  Inl e \<Rightarrow> None | Inr results \<Rightarrow> Some results)"
    using thm1 e1 l1 n1 by blast
  from e3 l3 eq3 ex e1 l1 eq1 show ?thesis by blast
qed

text \<open>
  Claim C9 at two tags. The comprehension drops a tag when \<^verbatim>\<open>h.strip()\<close> is empty,
  before the \<^verbatim>\<open>#\<close> is stripped, and removes the spaces after it: the tag \<^verbatim>\<open>#\<close>
  becomes the empty tag, and \<^verbatim>\<open># #ai\<close> becomes \<^verbatim>\<open>#ai\<close>, which starts with
  \<^verbatim>\<open>#\<close>. The same happens when the tags arrive as one comma-joined string.
\<close>

theorem normalize_hashtags_keeps_empty_and_hash:
  "normalize_hashtags (JArr [JStr (cps ''#''), JStr (cps ''# #ai'')]) = Inr [[], cps ''#ai'']
   \<and> normalize_hashtags (JStr (cps ''# # #,# # #ai'')) = Inr [[], cps ''#ai'']"
  by (simp add: normalize_hashtags_def cps_def strip_def strip_chars_def remove_spaces_def
        isspace_def str_split_def and_then_def)

section \<open>Summarization client: properties\<close>





end
